theory Spec2Isabelle
  imports Main "HOL-Library.Word"
begin

section \<open>JavaScript values and strings\<close>

text \<open>
  A JavaScript string is a sequence of UTF-16 code units; \<open>slice\<close>, \<open>trim\<close> and
  \<open>!==\<close> all work on code units, so a string is a list of 16-bit words.
\<close>

type_synonym jsstring = "16 word list"

text \<open>Socket ids are generated by the transport and are never the empty string, so an id
  read back from the \<open>online\<close> map is truthy exactly when it is present.\<close>

type_synonym sid = nat

text \<open>A socket runs over an underlying connection of the transport; several sockets can
  share one connection.\<close>

type_synonym cid = nat

text \<open>
  The fields of an event payload arrive as JSON. The values modelled are the missing field
  (\<open>undefined\<close>), \<open>null\<close>, booleans and strings; numbers and nested objects are left out.
\<close>

datatype jsval = JUndefined | JNull | JBool bool | JStr jsstring

definition ascii :: "string \<Rightarrow> jsstring" where
  "ascii cs = map (\<lambda>c. of_nat (of_char c)) cs"

text \<open>Truthiness, as tested by \<open>!x\<close>, \<open>x ? a : b\<close>, \<open>x && y\<close> and \<open>x || y\<close>.\<close>

fun truthy :: "jsval \<Rightarrow> bool" where
  "truthy JUndefined = False"
| "truthy JNull = False"
| "truthy (JBool b) = b"
| "truthy (JStr t) = (t \<noteq> [])"

text \<open>The conversion \<open>String(x)\<close>.\<close>

fun String :: "jsval \<Rightarrow> jsstring" where
  "String JUndefined = ascii ''undefined''"
| "String JNull = ascii ''null''"
| "String (JBool b) = (if b then ascii ''true'' else ascii ''false'')"
| "String (JStr t) = t"

text \<open>
  \<open>trim\<close> strips the code units of ECMAScript's WhiteSpace and LineTerminator
  productions from both ends.
\<close>

definition is_whitespace :: "16 word \<Rightarrow> bool" where
  "is_whitespace c \<longleftrightarrow>
     c = 0x0009 \<or> c = 0x000A \<or> c = 0x000B \<or> c = 0x000C \<or> c = 0x000D \<or> c = 0x0020 \<or>
     c = 0x00A0 \<or> c = 0x1680 \<or> (0x2000 \<le> c \<and> c \<le> 0x200A) \<or> c = 0x2028 \<or>
     c = 0x2029 \<or> c = 0x202F \<or> c = 0x205F \<or> c = 0x3000 \<or> c = 0xFEFF"

definition trim :: "jsstring \<Rightarrow> jsstring" where
  "trim t = rev (dropWhile is_whitespace (rev (dropWhile is_whitespace t)))"

text \<open>\<open>t.slice(0, n)\<close> for a non-negative \<open>n\<close>.\<close>

definition slice0 :: "nat \<Rightarrow> jsstring \<Rightarrow> jsstring" where
  "slice0 n t = take n t"

text \<open>\<open>String(x).trim().slice(0, 64)\<close>, applied to identities and to the room ids of
  create, join and invite.\<close>

definition normalise :: "jsval \<Rightarrow> jsstring" where
  "normalise x = slice0 64 (trim (String x))"

text \<open>\<open>x || ""\<close>.\<close>

definition or_empty :: "jsval \<Rightarrow> jsval" where
  "or_empty x = (if truthy x then x else JStr [])"

text \<open>
  A \<open>Set\<close> keeps its elements in insertion order without duplicates; \<open>[...set]\<close> lists
  them in that order.
\<close>

definition set_add :: "'a \<Rightarrow> 'a list \<Rightarrow> 'a list" where
  "set_add x xs = (if x \<in> set xs then xs else xs @ [x])"

definition set_delete :: "'a \<Rightarrow> 'a list \<Rightarrow> 'a list" where
  "set_delete x xs = removeAll x xs"

text \<open>
  The maps of the server are keyed by strings. \<open>Map.get\<close> and \<open>Map.delete\<close> are called
  with raw payload values in some handlers; a value that is not a string is no key.
\<close>

definition map_get :: "(jsstring \<rightharpoonup> 'v) \<Rightarrow> jsval \<Rightarrow> 'v option" where
  "map_get m k = (case k of JStr t \<Rightarrow> m t | _ \<Rightarrow> None)"

definition map_delete :: "(jsstring \<rightharpoonup> 'v) \<Rightarrow> jsval \<Rightarrow> (jsstring \<rightharpoonup> 'v)" where
  "map_delete m k = (case k of JStr t \<Rightarrow> m(t := None) | _ \<Rightarrow> m)"

section \<open>Server state\<close>

record room =
  members :: "jsstring list"
  pass :: "jsstring option"

record invite =
  inv_roomId :: jsstring
  inv_fromId :: jsstring
  inv_toId :: jsstring
  inv_createdAt :: nat

text \<open>
  The four maps of \<open>server.js\<close>, and the transport's table of sockets
  (\<open>io.sockets.sockets\<close>) with the \<open>connected\<close> flag of each entry.
\<close>

record state =
  online :: "jsstring \<rightharpoonup> sid"
  rooms :: "jsstring \<rightharpoonup> room"
  invites :: "jsstring \<rightharpoonup> invite"
  userRooms :: "jsstring \<rightharpoonup> jsstring list"
  sockets :: "sid \<rightharpoonup> bool"

definition init_state :: state where
  "init_state = \<lparr> online = Map.empty, rooms = Map.empty, invites = Map.empty,
                  userRooms = Map.empty, sockets = Map.empty \<rparr>"

text \<open>The error strings of the acknowledgments and of the handshake.\<close>

datatype error =
    MISSING_ID              \<comment> \<open>\<open>"Missing id"\<close>\<close>
  | ID_IN_USE               \<comment> \<open>the "id is in use" message of the middleware and of \<open>user:error\<close>\<close>
  | ROOMID_REQUIRED         \<comment> \<open>\<open>"roomId required"\<close>\<close>
  | ROOM_EXISTS
  | ROOM_NOT_FOUND
  | ALREADY_IN_ROOM
  | WRONG_PASSWORD
  | ROOMID_PEERID_REQUIRED  \<comment> \<open>\<open>"roomId,peerId required"\<close>\<close>
  | INVITER_NOT_IN_ROOM     \<comment> \<open>the "you are not in the room yet" message of invite\<close>
  | PEER_ALREADY_IN_ROOM
  | PEER_OFFLINE            \<comment> \<open>the "peer offline / does not exist" message of invite\<close>
  | INVITE_NOT_FOUND
  | UNAUTHORIZED
  | PARTY_OFFLINE           \<comment> \<open>the "one of the two sides is offline" message of accept\<close>
  | ROOMID_TEXT_REQUIRED    \<comment> \<open>\<open>"roomId,text required"\<close>\<close>
  | NOT_IN_ROOM             \<comment> \<open>the "you are not in the room" message of send\<close>

text \<open>The object passed to \<open>ack\<close>.\<close>

datatype ack =
    AckErr error                          \<comment> \<open>\<open>{ ok: false, error }\<close>\<close>
  | AckExists bool bool                   \<comment> \<open>\<open>{ ok: true, exists, locked }\<close>\<close>
  | AckRoom jsstring "jsstring list" bool \<comment> \<open>\<open>{ ok: true, roomId, members, locked }\<close>\<close>
  | AckInvite jsstring                    \<comment> \<open>\<open>{ ok: true, inviteId }\<close>\<close>
  | AckOk                                 \<comment> \<open>\<open>{ ok: true }\<close>\<close>
  | AckSent jsstring                      \<comment> \<open>\<open>{ ok: true, id }\<close>\<close>

text \<open>The texts of the \<open>room:system\<close> notices, one constructor per template.\<close>

datatype notice =
    Created jsstring bool      \<comment> \<open>created the room, with the "(has password)" suffix or not\<close>
  | Joined jsstring
  | JoinedByInvite jsstring
  | LeftRoom jsstring
  | LeftDisconnected jsstring  \<comment> \<open>left the room (lost connection)\<close>

record message =
  msg_id :: jsstring
  msg_roomId :: jsstring
  msg_from :: jsstring
  msg_text :: jsstring
  msg_at :: nat

datatype packet =
    user_registered jsstring
  | user_error error
  | room_system jsstring notice nat
  | room_incoming jsstring jsstring jsstring nat
  | room_rejected jsval jsstring nat
  | room_message message

text \<open>The calls a handler makes on the transport, in the order it makes them.\<close>

datatype effect =
    SocketJoin sid jsstring      \<comment> \<open>\<open>socket.join(roomId)\<close>\<close>
  | SocketLeave sid jsstring     \<comment> \<open>\<open>socket.leave(roomId)\<close>\<close>
  | EmitRoom jsstring packet     \<comment> \<open>\<open>io.to(roomId).emit(...)\<close>\<close>
  | EmitSocket sid packet        \<comment> \<open>\<open>socket.emit(...)\<close>, \<open>io.to(sid).emit(...)\<close>\<close>
  | SocketDisconnect sid         \<comment> \<open>\<open>socket.disconnect(true)\<close>\<close>

type_synonym outcome = "state \<times> ack \<times> effect list"

section \<open>Helpers of server.js\<close>

text \<open>\<open>getUserRooms\<close> creates the empty entry when there is none and returns the entry.\<close>

definition getUserRooms :: "state \<Rightarrow> jsstring \<Rightarrow> state \<times> jsstring list" where
  "getUserRooms s uid =
     (case userRooms s uid of
        None \<Rightarrow> (s\<lparr>userRooms := (userRooms s)(uid \<mapsto> [])\<rparr>, [])
      | Some urs \<Rightarrow> (s, urs))"

text \<open>\<open>getUserRooms(uid).add(roomId)\<close> and \<open>getUserRooms(uid).delete(roomId)\<close>.\<close>

definition track :: "state \<Rightarrow> jsstring \<Rightarrow> jsstring \<Rightarrow> state" where
  "track s uid rid =
     (case getUserRooms s uid of
        (s1, urs) \<Rightarrow> s1\<lparr>userRooms := (userRooms s1)(uid \<mapsto> set_add rid urs)\<rparr>)"

definition untrack :: "state \<Rightarrow> jsstring \<Rightarrow> jsstring \<Rightarrow> state" where
  "untrack s uid rid =
     (case getUserRooms s uid of
        (s1, urs) \<Rightarrow> s1\<lparr>userRooms := (userRooms s1)(uid \<mapsto> set_delete rid urs)\<rparr>)"

text \<open>\<open>!!r.pass\<close>.\<close>

definition locked :: "room \<Rightarrow> bool" where
  "locked r = (case pass r of None \<Rightarrow> False | Some w \<Rightarrow> w \<noteq> [])"

section \<open>Room handlers\<close>

text \<open>
  Every handler runs in the closure of one connection: \<open>me\<close> is its identity and
  \<open>sid\<close> its socket id. The payload of a request is an object whose fields may be
  missing. \<open>now\<close> stands for the readings of \<open>Date.now()\<close> a handler makes, and the
  invite and message ids, which the handlers build from the clock and \<open>Math.random()\<close>,
  are parameters. A handler returns the new state, the object it passes to \<open>ack\<close> and the
  calls it made on the transport.
\<close>

definition room_exists :: "state \<Rightarrow> jsval \<Rightarrow> ack" where
  "room_exists s roomId =
     (if \<not> truthy roomId then AckErr ROOMID_REQUIRED
      else case rooms s (trim (String roomId)) of
             None \<Rightarrow> AckExists False False
           | Some r \<Rightarrow> AckExists True (locked r))"

definition room_create :: "state \<Rightarrow> jsstring \<Rightarrow> sid \<Rightarrow> jsval \<Rightarrow> jsval \<Rightarrow> nat \<Rightarrow> outcome" where
  "room_create s me sid roomId password now =
     (if \<not> truthy roomId then (s, AckErr ROOMID_REQUIRED, [])
      else let rid = normalise roomId in
        if rooms s rid \<noteq> None then (s, AckErr ROOM_EXISTS, [])
        else let r = \<lparr> members = [me],
                       pass = (if truthy password then Some (String password) else None) \<rparr>;
                 s1 = s\<lparr>rooms := (rooms s)(rid \<mapsto> r)\<rparr>;
                 s2 = track s1 me rid
             in (s2, AckRoom rid (members r) (locked r),
                 [SocketJoin sid rid,
                  EmitRoom rid (room_system rid (Created me (locked r)) now)]))"

definition room_join :: "state \<Rightarrow> jsstring \<Rightarrow> sid \<Rightarrow> jsval \<Rightarrow> jsval \<Rightarrow> nat \<Rightarrow> outcome" where
  "room_join s me sid roomId password now =
     (if \<not> truthy roomId then (s, AckErr ROOMID_REQUIRED, [])
      else let rid = normalise roomId in
        case rooms s rid of
          None \<Rightarrow> (s, AckErr ROOM_NOT_FOUND, [])
        | Some r \<Rightarrow>
            if me \<in> set (members r) then (s, AckErr ALREADY_IN_ROOM, [])
            else if locked r \<and> Some (String (or_empty password)) \<noteq> pass r
              then (s, AckErr WRONG_PASSWORD, [])
            else let r' = r\<lparr>members := set_add me (members r)\<rparr>;
                     s1 = s\<lparr>rooms := (rooms s)(rid \<mapsto> r')\<rparr>
                 in (s1, AckRoom rid (members r') (locked r'),
                     [SocketJoin sid rid,
                      EmitRoom rid (room_system rid (Joined me) now)]))"

definition room_invite :: "state \<Rightarrow> jsstring \<Rightarrow> jsval \<Rightarrow> jsval \<Rightarrow> jsstring \<Rightarrow> nat \<Rightarrow> outcome" where
  \<comment> \<open>\<open>inviteId\<close> is the token the handler builds from the clock and \<open>Math.random()\<close>\<close>
  "room_invite s me roomId peerId inviteId now =
     (if \<not> truthy roomId \<or> \<not> truthy peerId then (s, AckErr ROOMID_PEERID_REQUIRED, [])
      else let rid = normalise roomId; pid = trim (String peerId) in
        case rooms s rid of
          None \<Rightarrow> (s, AckErr ROOM_NOT_FOUND, [])
        | Some r \<Rightarrow>
            if me \<notin> set (members r) then (s, AckErr INVITER_NOT_IN_ROOM, [])
            else if pid \<in> set (members r) then (s, AckErr PEER_ALREADY_IN_ROOM, [])
            else (case online s pid of
                    None \<Rightarrow> (s, AckErr PEER_OFFLINE, [])
                  | Some peerSid \<Rightarrow>
                      (s\<lparr>invites := (invites s)(inviteId \<mapsto>
                           \<lparr> inv_roomId = rid, inv_fromId = me, inv_toId = pid,
                             inv_createdAt = now \<rparr>)\<rparr>,
                       AckInvite inviteId,
                       [EmitSocket peerSid (room_incoming inviteId rid me now)])))"

text \<open>\<open>io.sockets.sockets.get(sid)?.join(roomId)\<close>: nothing when the table has no such socket.\<close>

definition join_if_present :: "state \<Rightarrow> sid \<Rightarrow> jsstring \<Rightarrow> effect list" where
  "join_if_present s x rid = (if sockets s x \<noteq> None then [SocketJoin x rid] else [])"

definition room_accept :: "state \<Rightarrow> jsstring \<Rightarrow> jsval \<Rightarrow> nat \<Rightarrow> outcome" where
  "room_accept s me inviteId now =
     (case map_get (invites s) inviteId of
        None \<Rightarrow> (s, AckErr INVITE_NOT_FOUND, [])
      | Some invt \<Rightarrow>
          if inv_toId invt \<noteq> me then (s, AckErr UNAUTHORIZED, [])
          else (case rooms s (inv_roomId invt) of
            None \<Rightarrow> (s\<lparr>invites := map_delete (invites s) inviteId\<rparr>, AckErr ROOM_NOT_FOUND, [])
          | Some r \<Rightarrow>
              (case (online s (inv_fromId invt), online s (inv_toId invt)) of
                 (Some fromSid, Some toSid) \<Rightarrow>
                   let r' = r\<lparr>members := set_add (inv_toId invt) (set_add (inv_fromId invt) (members r))\<rparr>;
                       s1 = s\<lparr>rooms := (rooms s)(inv_roomId invt \<mapsto> r')\<rparr>;
                       s2 = track s1 (inv_fromId invt) (inv_roomId invt);
                       s3 = track s2 (inv_toId invt) (inv_roomId invt);
                       s4 = s3\<lparr>invites := map_delete (invites s3) inviteId\<rparr>
                   in (s4, AckRoom (inv_roomId invt) (members r') (locked r'),
                       join_if_present s fromSid (inv_roomId invt) @
                       join_if_present s toSid (inv_roomId invt) @
                       [EmitRoom (inv_roomId invt)
                          (room_system (inv_roomId invt) (JoinedByInvite me) now)])
               | _ \<Rightarrow> (s\<lparr>invites := map_delete (invites s) inviteId\<rparr>, AckErr PARTY_OFFLINE, []))))"

definition room_reject :: "state \<Rightarrow> jsstring \<Rightarrow> jsval \<Rightarrow> nat \<Rightarrow> outcome" where
  "room_reject s me inviteId now =
     (case map_get (invites s) inviteId of
        None \<Rightarrow> (s, AckOk, [])
      | Some invt \<Rightarrow>
          if inv_toId invt = me
          then (s\<lparr>invites := map_delete (invites s) inviteId\<rparr>, AckOk,
                (case online s (inv_fromId invt) of
                   None \<Rightarrow> []
                 | Some fromSid \<Rightarrow> [EmitSocket fromSid (room_rejected inviteId me now)]))
          else (s, AckOk, []))"

text \<open>\<open>room:leave\<close> and \<open>room:send\<close> look the raw \<open>roomId\<close> up, without trimming it.\<close>

definition room_leave :: "state \<Rightarrow> jsstring \<Rightarrow> sid \<Rightarrow> jsval \<Rightarrow> nat \<Rightarrow> outcome" where
  "room_leave s me sid roomId now =
     (if \<not> truthy roomId then (s, AckErr ROOMID_REQUIRED, [])
      else case roomId of
        JStr rid \<Rightarrow>
          (case rooms s rid of
             None \<Rightarrow> (s, AckOk, [])
           | Some r \<Rightarrow>
               if me \<in> set (members r)
               then let r' = r\<lparr>members := set_delete me (members r)\<rparr>;
                        s1 = s\<lparr>rooms := (rooms s)(rid \<mapsto> r')\<rparr>;
                        s2 = untrack s1 me rid;
                        s3 = (if members r' = [] then s2\<lparr>rooms := (rooms s2)(rid := None)\<rparr> else s2)
                    in (s3, AckOk,
                        [SocketLeave sid rid, EmitRoom rid (room_system rid (LeftRoom me) now)])
               else (s, AckOk, []))
      | _ \<Rightarrow> (s, AckOk, []))"

definition room_send :: "state \<Rightarrow> jsstring \<Rightarrow> jsval \<Rightarrow> jsval \<Rightarrow> jsstring \<Rightarrow> nat \<Rightarrow> outcome" where
  \<comment> \<open>\<open>mid\<close> is the message id the handler builds from the clock and \<open>Math.random()\<close>\<close>
  "room_send s me roomId text mid now =
     (if \<not> truthy roomId \<or> \<not> truthy text then (s, AckErr ROOMID_TEXT_REQUIRED, [])
      else case map_get (rooms s) roomId of
        None \<Rightarrow> (s, AckErr NOT_IN_ROOM, [])
      | Some r \<Rightarrow>
          if me \<notin> set (members r) then (s, AckErr NOT_IN_ROOM, [])
          else let msg = \<lparr> msg_id = mid, msg_roomId = String roomId, msg_from = me,
                           msg_text = slice0 4000 (String text), msg_at = now \<rparr>
               in (s, AckSent (msg_id msg), [EmitRoom (String roomId) (room_message msg)]))"

section \<open>Connecting and disconnecting\<close>

text \<open>The middleware \<open>io.use\<close>: the error it passes to \<open>next\<close>, or the \<open>socket.data.id\<close> it sets.\<close>

definition io_use :: "state \<Rightarrow> jsval \<Rightarrow> error + jsstring" where
  "io_use s raw =
     (if \<not> truthy raw then Inl MISSING_ID
      else let ident = slice0 64 (trim (String raw)) in
        case online s ident of
          None \<Rightarrow> Inr ident
        | Some existingSid \<Rightarrow>
            (case sockets s existingSid of
               None \<Rightarrow> Inr ident
             | Some connected \<Rightarrow> if connected then Inl ID_IN_USE else Inr ident))"

text \<open>The start of the \<open>connection\<close> handler. The flag tells whether the handler went on to
  attach its listeners (\<open>True\<close>) or returned after \<open>socket.disconnect(true)\<close>.\<close>

definition on_connection :: "state \<Rightarrow> jsstring \<Rightarrow> sid \<Rightarrow> state \<times> bool \<times> effect list" where
  "on_connection s me sid =
     (case online s me of
        Some prev \<Rightarrow>
          if prev \<noteq> sid
          then (s, False, [EmitSocket sid (user_error ID_IN_USE), SocketDisconnect sid])
          else (s\<lparr>online := (online s)(me \<mapsto> sid)\<rparr>, True, [EmitSocket sid (user_registered me)])
      | None \<Rightarrow>
          (s\<lparr>online := (online s)(me \<mapsto> sid)\<rparr>, True, [EmitSocket sid (user_registered me)]))"

text \<open>The loop of the \<open>disconnect\<close> handler over the rooms of \<open>userRooms\<close>.\<close>

fun leave_all :: "state \<Rightarrow> jsstring \<Rightarrow> nat \<Rightarrow> jsstring list \<Rightarrow> state \<times> effect list" where
  "leave_all s me now [] = (s, [])"
| "leave_all s me now (rid # rest) =
     (case rooms s rid of
        None \<Rightarrow> leave_all s me now rest
      | Some r \<Rightarrow>
          let r' = r\<lparr>members := set_delete me (members r)\<rparr>;
              s1 = s\<lparr>rooms := (rooms s)(rid \<mapsto> r')\<rparr>;
              s2 = (if members r' = [] then s1\<lparr>rooms := (rooms s1)(rid := None)\<rparr> else s1)
          in case leave_all s2 me now rest of
               (s3, effs) \<Rightarrow> (s3, EmitRoom rid (room_system rid (LeftDisconnected me) now) # effs))"

text \<open>The loop over \<open>invites\<close> deletes every invite \<open>me\<close> proposed or was the target of.\<close>

definition drop_invites :: "(jsstring \<rightharpoonup> invite) \<Rightarrow> jsstring \<Rightarrow> (jsstring \<rightharpoonup> invite)" where
  "drop_invites m me =
     (\<lambda>k. case m k of
            None \<Rightarrow> None
          | Some it \<Rightarrow> if inv_fromId it = me \<or> inv_toId it = me then None else Some it)"

definition on_disconnect :: "state \<Rightarrow> jsstring \<Rightarrow> sid \<Rightarrow> nat \<Rightarrow> state \<times> effect list" where
  "on_disconnect s me sid now =
     (let s1 = (if online s me = Some sid then s\<lparr>online := (online s)(me := None)\<rparr> else s)
      in case getUserRooms s1 me of
        (s2, urs) \<Rightarrow>
          (case leave_all s2 me now urs of
             (s3, effs) \<Rightarrow>
               let s4 = s3\<lparr>userRooms := (userRooms s3)(me := None)\<rparr>;
                   s5 = s4\<lparr>invites := drop_invites (invites s4) me\<rparr>
               in (s5, effs)))"

section \<open>The server as a transition system\<close>

text \<open>
  The transport delivers one event at a time. A socket is opened over an underlying
  connection and first passes the middleware (\<open>Handshake\<close>); its \<open>connection\<close>
  event fires on a later tick, after the middleware of every other socket opened in the
  same tick; from then on the socket sends requests until its \<open>disconnect\<close> event. The
  transport enters a socket into its table just before the \<open>connection\<close> event and
  takes it out just before the \<open>disconnect\<close> event. The events of different sockets
  may come in any order here, which includes every order the transport produces.

  A socket is disconnected on its own (\<open>Disconnect\<close>), or with its connection
  (\<open>Close\<close>): when a connection closes, the sockets of that connection are disconnected
  one after the other in the order they connected, each one's \<open>disconnect\<close> handler
  runs, and the sockets of that connection still waiting for their \<open>connection\<close> event
  are dropped. \<open>socket.disconnect(true)\<close> closes the connection of the socket, so inside
  that call the \<open>disconnect\<close> handlers of the other sockets of the connection run.
\<close>

datatype request =
    Exists jsval
  | Create jsval jsval
  | Join jsval jsval
  | Invite jsval jsval jsstring
  | Accept jsval
  | Reject jsval
  | Leave jsval
  | Send jsval jsval jsstring

datatype event =
    Handshake sid cid jsval
  | Connection sid nat
  | Request sid request nat
  | Disconnect sid nat
  | Close cid nat

fun handle :: "state \<Rightarrow> jsstring \<Rightarrow> sid \<Rightarrow> request \<Rightarrow> nat \<Rightarrow> outcome" where
  "handle s me sid (Exists roomId) now = (s, room_exists s roomId, [])"
| "handle s me sid (Create roomId password) now = room_create s me sid roomId password now"
| "handle s me sid (Join roomId password) now = room_join s me sid roomId password now"
| "handle s me sid (Invite roomId peerId inviteId) now = room_invite s me roomId peerId inviteId now"
| "handle s me sid (Accept inviteId) now = room_accept s me inviteId now"
| "handle s me sid (Reject inviteId) now = room_reject s me inviteId now"
| "handle s me sid (Leave roomId) now = room_leave s me sid roomId now"
| "handle s me sid (Send roomId text mid) now = room_send s me roomId text mid now"

text \<open>
  \<open>pending\<close> holds \<open>socket.data.id\<close> of the sockets between middleware and
  \<open>connection\<close>; \<open>attached\<close> holds the \<open>me\<close> of the sockets whose listeners are
  attached; \<open>conn_of\<close> is the connection a socket id was opened over; \<open>connected\<close>
  lists the attached sockets in the order of their \<open>connection\<close> events.
\<close>

record system =
  st :: state
  pending :: "sid \<rightharpoonup> jsstring"
  attached :: "sid \<rightharpoonup> jsstring"
  conn_of :: "sid \<Rightarrow> cid"
  connected :: "sid list"

definition init_system :: system where
  "init_system = \<lparr> st = init_state, pending = Map.empty, attached = Map.empty,
                   conn_of = (\<lambda>x. 0), connected = [] \<rparr>"

text \<open>The \<open>disconnect\<close> event of one socket: the transport takes the socket out of its
  table, then the handler runs.\<close>

definition disconnect_socket :: "system \<Rightarrow> nat \<Rightarrow> sid \<Rightarrow> system" where
  "disconnect_socket w now x =
     (case attached w x of
        None \<Rightarrow> w
      | Some me \<Rightarrow>
          w\<lparr>st := fst (on_disconnect ((st w)\<lparr>sockets := (sockets (st w))(x := None)\<rparr>) me x now),
            attached := (attached w)(x := None),
            connected := removeAll x (connected w)\<rparr>)"

fun disconnect_all :: "system \<Rightarrow> nat \<Rightarrow> sid list \<Rightarrow> system" where
  "disconnect_all w now [] = w"
| "disconnect_all w now (x # xs) = disconnect_all (disconnect_socket w now x) now xs"

text \<open>Closing the connection \<open>c\<close>.\<close>

definition close_connection :: "system \<Rightarrow> cid \<Rightarrow> nat \<Rightarrow> system" where
  "close_connection w c now =
     (let w' = disconnect_all w now (filter (\<lambda>x. conn_of w x = c) (connected w))
      in w'\<lparr>pending := (\<lambda>y. if conn_of w y = c then None else pending w' y)\<rparr>)"

text \<open>
  In the \<open>connection\<close> event of a socket that the handler rejects, the socket is in the
  table while the handler runs; the handler's \<open>socket.disconnect(true)\<close> closes the
  socket's connection, and the rejected socket, which has no listeners, leaves the table.
\<close>

fun step :: "system \<Rightarrow> event \<Rightarrow> system" where
  "step w (Handshake sid c raw) =
     (if sockets (st w) sid \<noteq> None \<or> pending w sid \<noteq> None \<or> attached w sid \<noteq> None then w
      else case io_use (st w) raw of
             Inl e \<Rightarrow> w
           | Inr ident \<Rightarrow> w\<lparr>pending := (pending w)(sid \<mapsto> ident),
                              conn_of := (conn_of w)(sid := c)\<rparr>)"
| "step w (Connection sid now) =
     (case pending w sid of
        None \<Rightarrow> w
      | Some me \<Rightarrow>
          (case on_connection ((st w)\<lparr>sockets := (sockets (st w))(sid \<mapsto> True)\<rparr>) me sid of
             (s1, registered, effs) \<Rightarrow>
               if registered
               then w\<lparr>st := s1, pending := (pending w)(sid := None),
                      attached := (attached w)(sid \<mapsto> me),
                      connected := connected w @ [sid]\<rparr>
               else let w1 = close_connection
                               (w\<lparr>st := s1, pending := (pending w)(sid := None)\<rparr>)
                               (conn_of w sid) now
                    in w1\<lparr>st := (st w1)\<lparr>sockets := (sockets (st w1))(sid := None)\<rparr>\<rparr>))"
| "step w (Request sid rq now) =
     (case attached w sid of
        None \<Rightarrow> w
      | Some me \<Rightarrow> w\<lparr>st := fst (handle (st w) me sid rq now)\<rparr>)"
| "step w (Disconnect sid now) = disconnect_socket w now sid"
| "step w (Close c now) = close_connection w c now"

definition run :: "event list \<Rightarrow> system" where
  "run es = foldl step init_system es"

section \<open>Invariants and example runs\<close>

text \<open>Every stored room has at least one member.\<close>

definition rooms_nonempty :: "state \<Rightarrow> bool" where
  "rooms_nonempty s \<longleftrightarrow> (\<forall>rid r. rooms s rid = Some r \<longrightarrow> members r \<noteq> [])"

text \<open>
  The registry and the attached sockets describe each other: a socket with attached
  listeners is the registry's entry for its identity and is in the transport's table, every
  registry entry points at such a socket, a socket that has only passed the
  middleware is in neither, and every attached socket is listed in \<open>connected\<close>.
\<close>

definition registry_ok :: "system \<Rightarrow> bool" where
  "registry_ok w \<longleftrightarrow>
     (\<forall>x me. attached w x = Some me \<longrightarrow> online (st w) me = Some x \<and> sockets (st w) x = Some True) \<and>
     (\<forall>me x. online (st w) me = Some x \<longrightarrow> attached w x = Some me) \<and>
     (\<forall>x. pending w x \<noteq> None \<longrightarrow> attached w x = None \<and> sockets (st w) x = None) \<and>
     (\<forall>x. attached w x \<noteq> None \<longrightarrow> x \<in> set (connected w))"

text \<open>
  Membership as the room store has it and as the index \<open>userRooms\<close> has it, and their
  agreement for every identity and room.
\<close>

definition is_member :: "state \<Rightarrow> jsstring \<Rightarrow> jsstring \<Rightarrow> bool" where
  "is_member s u rid = (case rooms s rid of None \<Rightarrow> False | Some r \<Rightarrow> u \<in> set (members r))"

definition is_indexed :: "state \<Rightarrow> jsstring \<Rightarrow> jsstring \<Rightarrow> bool" where
  "is_indexed s u rid = (case userRooms s u of None \<Rightarrow> False | Some urs \<Rightarrow> rid \<in> set urs)"

definition index_consistent :: "state \<Rightarrow> bool" where
  "index_consistent s \<longleftrightarrow> (\<forall>u rid. is_member s u rid = is_indexed s u rid)"

text \<open>
  A room is absent or stored without a password; and the one kind of event that can store
  a room with a password under a given key: a create request that names the key and
  carries a truthy password.
\<close>

definition unlocked_or_absent :: "state \<Rightarrow> jsstring \<Rightarrow> bool" where
  "unlocked_or_absent s rid = (case rooms s rid of None \<Rightarrow> True | Some r \<Rightarrow> pass r = None)"

fun locking_create :: "jsstring \<Rightarrow> event \<Rightarrow> bool" where
  "locking_create rid (Request x (Create roomId password) now) =
     (normalise roomId = rid \<and> truthy password)"
| "locking_create rid e = False"

definition alice :: jsstring where "alice = ascii ''alice''"
definition bob :: jsstring where "bob = ascii ''bob''"
definition r1 :: jsstring where "r1 = ascii ''r1''"
definition secret :: jsstring where "secret = ascii ''secret''"
definition token :: jsstring where "token = ascii ''1700000000000-k3x9q''"

text \<open>alice and bob connect.\<close>

definition demo_connected :: "event list" where
  "demo_connected =
     [Handshake 1 1 (JStr alice), Connection 1 0, Handshake 2 2 (JStr bob), Connection 2 0]"

text \<open>Then alice creates the room \<open>r1\<close> without a password.\<close>

definition demo_room :: "event list" where
  "demo_room = demo_connected @ [Request 1 (Create (JStr r1) JUndefined) 10]"

text \<open>After \<open>demo_room\<close> bob joins \<open>r1\<close>, supplying a password.\<close>

definition demo_joined :: "event list" where
  "demo_joined = demo_room @ [Request 2 (Join (JStr r1) (JStr secret)) 20]"

text \<open>Or alice invites bob to \<open>r1\<close>, and bob accepts.\<close>

definition demo_invited :: "event list" where
  "demo_invited = demo_room @ [Request 1 (Invite (JStr r1) (JStr bob) token) 20]"

definition demo_accepted :: "event list" where
  "demo_accepted = demo_invited @ [Request 2 (Accept (JStr token)) 30]"

text \<open>After the invitation alice leaves, so the room is gone when bob accepts.\<close>

definition demo_vanished :: "event list" where
  "demo_vanished = demo_invited @ [Request 1 (Leave (JStr r1)) 25]"

text \<open>Or alice creates \<open>r1\<close> with the password \<open>secret\<close>.\<close>

definition demo_locked :: "event list" where
  "demo_locked = demo_connected @ [Request 1 (Create (JStr r1) (JStr secret)) 10]"

text \<open>Two sockets opened over the same connection present the identity alice, and both
  pass the middleware before the \<open>connection\<close> event of the first one fires.\<close>

definition demo_race :: "event list" where
  "demo_race = [Handshake 1 7 (JStr alice), Handshake 2 7 (JStr alice), Connection 1 5]"

text \<open>After joining, bob's connection is lost.\<close>

definition demo_joined_disconnected :: "event list" where
  "demo_joined_disconnected = demo_joined @ [Disconnect 2 30]"

section \<open>Rooms are never empty\<close>

lemma set_add_nonempty: "set_add x xs \<noteq> []"
  by (auto simp: set_add_def)

lemma getUserRooms_fields:
  "rooms (fst (getUserRooms s u)) = rooms s"
  "online (fst (getUserRooms s u)) = online s"
  "sockets (fst (getUserRooms s u)) = sockets s"
  "invites (fst (getUserRooms s u)) = invites s"
  by (simp_all add: getUserRooms_def split: option.splits)

lemma track_fields:
  "rooms (track s u k) = rooms s"
  "online (track s u k) = online s"
  "sockets (track s u k) = sockets s"
  "invites (track s u k) = invites s"
  by (simp_all add: track_def getUserRooms_def split: option.splits)

lemma untrack_fields:
  "rooms (untrack s u k) = rooms s"
  "online (untrack s u k) = online s"
  "sockets (untrack s u k) = sockets s"
  "invites (untrack s u k) = invites s"
  by (simp_all add: untrack_def getUserRooms_def split: option.splits)

lemma room_create_nonempty:
  "rooms_nonempty s \<Longrightarrow> rooms_nonempty (fst (room_create s me sid roomId password now))"
  by (auto simp: room_create_def Let_def track_fields rooms_nonempty_def)

lemma room_join_nonempty:
  "rooms_nonempty s \<Longrightarrow> rooms_nonempty (fst (room_join s me sid roomId password now))"
  by (auto simp: room_join_def Let_def rooms_nonempty_def set_add_nonempty split: option.splits)

lemma room_invite_nonempty:
  "rooms_nonempty s \<Longrightarrow> rooms_nonempty (fst (room_invite s me roomId peerId tok now))"
  by (auto simp: room_invite_def Let_def rooms_nonempty_def split: option.splits)

lemma room_accept_nonempty:
  "rooms_nonempty s \<Longrightarrow> rooms_nonempty (fst (room_accept s me inviteId now))"
  by (auto simp: room_accept_def Let_def rooms_nonempty_def track_fields set_add_nonempty split: option.splits)

lemma room_reject_nonempty:
  "rooms_nonempty s \<Longrightarrow> rooms_nonempty (fst (room_reject s me inviteId now))"
  by (auto simp: room_reject_def rooms_nonempty_def split: option.splits)

lemma room_leave_nonempty:
  "rooms_nonempty s \<Longrightarrow> rooms_nonempty (fst (room_leave s me sid roomId now))"
  by (auto simp: room_leave_def Let_def rooms_nonempty_def untrack_fields split: option.splits jsval.splits)

lemma room_send_nonempty:
  "rooms_nonempty s \<Longrightarrow> rooms_nonempty (fst (room_send s me roomId text mid now))"
  by (auto simp: room_send_def Let_def split: option.splits)

lemma handle_nonempty:
  "rooms_nonempty s \<Longrightarrow> rooms_nonempty (fst (handle s me sid rq now))"
  by (cases rq) (simp_all add: room_create_nonempty room_join_nonempty room_invite_nonempty
      room_accept_nonempty room_reject_nonempty room_leave_nonempty room_send_nonempty)

lemma leave_all_nonempty:
  "rooms_nonempty s \<Longrightarrow> rooms_nonempty (fst (leave_all s me now ks))"
proof (induction ks arbitrary: s)
  case Nil
  then show ?case by simp
next
  case (Cons k ks)
  show ?case
  proof (cases "rooms s k")
    case None
    then show ?thesis using Cons by simp
  next
    case (Some r)
    show ?thesis
    proof (cases "set_delete me (members r) = []")
      case True
      have "rooms_nonempty (s\<lparr>rooms := (rooms s)(k := None)\<rparr>)"
        using Cons.prems by (simp add: rooms_nonempty_def)
      then have "rooms_nonempty (fst (leave_all (s\<lparr>rooms := (rooms s)(k := None)\<rparr>) me now ks))"
        by (rule Cons.IH)
      then show ?thesis
        using Some True by (auto simp: Let_def split: prod.splits)
    next
      case False
      let ?s1 = "s\<lparr>rooms := (rooms s)(k \<mapsto> r\<lparr>members := set_delete me (members r)\<rparr>)\<rparr>"
      have "rooms_nonempty ?s1"
        using Cons.prems False by (simp add: rooms_nonempty_def)
      then have "rooms_nonempty (fst (leave_all ?s1 me now ks))"
        by (rule Cons.IH)
      then show ?thesis
        using Some False by (auto simp: Let_def split: prod.splits)
    qed
  qed
qed

lemma on_disconnect_nonempty:
  assumes "rooms_nonempty s"
  shows "rooms_nonempty (fst (on_disconnect s me sid now))"
proof -
  let ?s1 = "if online s me = Some sid then s\<lparr>online := (online s)(me := None)\<rparr> else s"
  have "rooms_nonempty ?s1" using assms by (simp add: rooms_nonempty_def)
  then have "rooms_nonempty (fst (getUserRooms ?s1 me))"
    by (simp add: rooms_nonempty_def getUserRooms_fields)
  then have "rooms_nonempty (fst (leave_all (fst (getUserRooms ?s1 me)) me now (snd (getUserRooms ?s1 me))))"
    by (rule leave_all_nonempty)
  then show ?thesis
    by (simp add: on_disconnect_def Let_def rooms_nonempty_def split: prod.splits)
qed

lemma on_connection_rooms: "rooms (fst (on_connection s me sid)) = rooms s"
  by (simp add: on_connection_def split: option.splits)

lemma disconnect_socket_nonempty:
  assumes "rooms_nonempty (st w)"
  shows "rooms_nonempty (st (disconnect_socket w now x))"
proof (cases "attached w x")
  case None
  then show ?thesis using assms by (simp add: disconnect_socket_def)
next
  case (Some me)
  have "rooms_nonempty ((st w)\<lparr>sockets := (sockets (st w))(x := None)\<rparr>)"
    using assms by (simp add: rooms_nonempty_def)
  then show ?thesis using Some
    by (simp add: disconnect_socket_def on_disconnect_nonempty)
qed

lemma disconnect_all_nonempty:
  "rooms_nonempty (st w) \<Longrightarrow> rooms_nonempty (st (disconnect_all w now xs))"
  by (induction xs arbitrary: w) (simp_all add: disconnect_socket_nonempty)

lemma close_connection_nonempty:
  "rooms_nonempty (st w) \<Longrightarrow> rooms_nonempty (st (close_connection w c now))"
  by (simp add: close_connection_def Let_def disconnect_all_nonempty)

lemma step_nonempty:
  assumes "rooms_nonempty (st w)"
  shows "rooms_nonempty (st (step w e))"
proof (cases e)
  case (Handshake sid c raw)
  then show ?thesis using assms by (simp split: sum.splits)
next
  case (Connection sid now)
  show ?thesis
  proof (cases "pending w sid")
    case None
    then show ?thesis using assms Connection by simp
  next
    case (Some me)
    let ?s0 = "(st w)\<lparr>sockets := (sockets (st w))(sid \<mapsto> True)\<rparr>"
    obtain s1 registered effs where oc: "on_connection ?s0 me sid = (s1, registered, effs)"
      by (cases "on_connection ?s0 me sid") auto
    have "rooms s1 = rooms (st w)"
      using on_connection_rooms [of ?s0 me sid] oc by simp
    then have s1: "rooms_nonempty s1"
      using assms by (simp add: rooms_nonempty_def)
    show ?thesis
    proof (cases registered)
      case True
      then show ?thesis using Connection Some oc s1 by simp
    next
      case False
      let ?w0 = "w\<lparr>st := s1, pending := (pending w)(sid := None)\<rparr>"
      have "rooms_nonempty (st (close_connection ?w0 (conn_of w sid) now))"
        using s1 by (intro close_connection_nonempty) simp
      then show ?thesis using Connection Some oc False
        by (simp add: Let_def rooms_nonempty_def)
    qed
  qed
next
  case (Request sid rq now)
  then show ?thesis using assms by (simp add: handle_nonempty split: option.splits)
next
  case (Disconnect sid now)
  then show ?thesis using assms by (simp add: disconnect_socket_nonempty)
next
  case (Close c now)
  then show ?thesis using assms by (simp add: close_connection_nonempty)
qed

lemma run_snoc: "run (es @ [e]) = step (run es) e"
  by (simp add: run_def)

lemma run_nonempty: "rooms_nonempty (st (run es))"
proof (induction es rule: rev_induct)
  case Nil
  show ?case by (simp add: run_def init_system_def init_state_def rooms_nonempty_def)
next
  case (snoc e es)
  then show ?case by (simp add: run_snoc step_nonempty)
qed

section \<open>The registry\<close>

lemma handle_online: "online (fst (handle s me sid rq now)) = online s"
  by (cases rq)
     (auto simp: room_create_def room_join_def room_invite_def room_accept_def room_reject_def
        room_leave_def room_send_def Let_def track_fields untrack_fields
        split: option.splits jsval.splits)

lemma handle_sockets: "sockets (fst (handle s me sid rq now)) = sockets s"
  by (cases rq)
     (auto simp: room_create_def room_join_def room_invite_def room_accept_def room_reject_def
        room_leave_def room_send_def Let_def track_fields untrack_fields
        split: option.splits jsval.splits)

lemma leave_all_keeps:
  "leave_all s me now ks = (t, effs) \<Longrightarrow> online t = online s \<and> sockets t = sockets s"
proof (induction ks arbitrary: s t effs)
  case Nil
  then show ?case by simp
next
  case (Cons k ks)
  show ?case
  proof (cases "rooms s k")
    case None
    then show ?thesis using Cons by simp
  next
    case (Some r)
    then show ?thesis using Cons.prems Cons.IH
      by (fastforce simp: Let_def split: prod.splits if_splits)
  qed
qed

lemma leave_all_online_sockets:
  "online (fst (leave_all s me now ks)) = online s \<and> sockets (fst (leave_all s me now ks)) = sockets s"
  using leave_all_keeps [of s me now ks] by (cases "leave_all s me now ks") simp

lemma on_disconnect_online:
  "online (fst (on_disconnect s me sid now)) =
     (if online s me = Some sid then (online s)(me := None) else online s)"
proof -
  let ?s1 = "if online s me = Some sid then s\<lparr>online := (online s)(me := None)\<rparr> else s"
  have "online (fst (leave_all (fst (getUserRooms ?s1 me)) me now (snd (getUserRooms ?s1 me)))) = online ?s1"
    by (simp add: leave_all_online_sockets getUserRooms_fields)
  then show ?thesis
    by (auto simp: on_disconnect_def Let_def split: prod.splits)
qed

lemma on_disconnect_sockets:
  "sockets (fst (on_disconnect s me sid now)) = sockets s"
proof -
  let ?s1 = "if online s me = Some sid then s\<lparr>online := (online s)(me := None)\<rparr> else s"
  have "sockets (fst (leave_all (fst (getUserRooms ?s1 me)) me now (snd (getUserRooms ?s1 me)))) = sockets ?s1"
    by (simp add: leave_all_online_sockets getUserRooms_fields)
  then show ?thesis
    by (auto simp: on_disconnect_def Let_def split: prod.splits)
qed

lemma registry_okI:
  assumes "\<And>x me. attached w x = Some me \<Longrightarrow> online (st w) me = Some x \<and> sockets (st w) x = Some True"
    and "\<And>me x. online (st w) me = Some x \<Longrightarrow> attached w x = Some me"
    and "\<And>x. pending w x \<noteq> None \<Longrightarrow> attached w x = None \<and> sockets (st w) x = None"
    and "\<And>x. attached w x \<noteq> None \<Longrightarrow> x \<in> set (connected w)"
  shows "registry_ok w"
  using assms unfolding registry_ok_def by blast

lemma registry_ok_attached:
  "registry_ok w \<Longrightarrow> attached w x = Some me \<Longrightarrow> online (st w) me = Some x \<and> sockets (st w) x = Some True"
  unfolding registry_ok_def by blast

lemma registry_ok_online:
  "registry_ok w \<Longrightarrow> online (st w) me = Some x \<Longrightarrow> attached w x = Some me"
  unfolding registry_ok_def by blast

lemma registry_ok_pending:
  "registry_ok w \<Longrightarrow> pending w x \<noteq> None \<Longrightarrow> attached w x = None \<and> sockets (st w) x = None"
  unfolding registry_ok_def by blast

lemma registry_ok_listed:
  "registry_ok w \<Longrightarrow> attached w x \<noteq> None \<Longrightarrow> x \<in> set (connected w)"
  unfolding registry_ok_def by blast

lemma step_registry_handshake:
  assumes "registry_ok w"
  shows "registry_ok (step w (Handshake x c raw))"
proof (cases "sockets (st w) x \<noteq> None \<or> pending w x \<noteq> None \<or> attached w x \<noteq> None")
  case True
  then show ?thesis using assms by auto
next
  case False
  show ?thesis
  proof (cases "io_use (st w) raw")
    case (Inl e)
    then show ?thesis using assms False by simp
  next
    case (Inr ident)
    let ?w' = "w\<lparr>pending := (pending w)(x \<mapsto> ident), conn_of := (conn_of w)(x := c)\<rparr>"
    have eq: "step w (Handshake x c raw) = ?w'"
      using Inr False by simp
    have "registry_ok ?w'"
    proof (rule registry_okI)
      fix y me assume "attached ?w' y = Some me"
      then show "online (st ?w') me = Some y \<and> sockets (st ?w') y = Some True"
        using registry_ok_attached [OF assms, of y me] by simp
    next
      fix me y assume "online (st ?w') me = Some y"
      then show "attached ?w' y = Some me"
        using registry_ok_online [OF assms, of me y] by simp
    next
      fix y assume "pending ?w' y \<noteq> None"
      then show "attached ?w' y = None \<and> sockets (st ?w') y = None"
        using registry_ok_pending [OF assms, of y] False by (cases "y = x") auto
    next
      fix y assume "attached ?w' y \<noteq> None"
      then show "y \<in> set (connected ?w')"
        using registry_ok_listed [OF assms, of y] by simp
    qed
    then show ?thesis by (simp only: eq)
  qed
qed

lemma registry_ok_cong:
  assumes "online (st w') = online (st w)" and "sockets (st w') = sockets (st w)"
    and "attached w' = attached w" and "pending w' = pending w"
    and "connected w' = connected w" and "registry_ok w"
  shows "registry_ok w'"
proof (rule registry_okI)
  fix x me assume "attached w' x = Some me"
  then have "attached w x = Some me" by (simp add: assms(3))
  then have "online (st w) me = Some x \<and> sockets (st w) x = Some True"
    by (rule registry_ok_attached [OF assms(6)])
  then show "online (st w') me = Some x \<and> sockets (st w') x = Some True"
    by (simp add: assms(1,2))
next
  fix me x assume "online (st w') me = Some x"
  then have "online (st w) me = Some x" by (simp add: assms(1))
  then have "attached w x = Some me"
    by (rule registry_ok_online [OF assms(6)])
  then show "attached w' x = Some me" by (simp add: assms(3))
next
  fix x assume "pending w' x \<noteq> None"
  then have "pending w x \<noteq> None" by (simp add: assms(4))
  then have "attached w x = None \<and> sockets (st w) x = None"
    by (rule registry_ok_pending [OF assms(6)])
  then show "attached w' x = None \<and> sockets (st w') x = None"
    by (simp add: assms(2,3))
next
  fix x assume "attached w' x \<noteq> None"
  then have "attached w x \<noteq> None" by (simp add: assms(3))
  then have "x \<in> set (connected w)"
    by (rule registry_ok_listed [OF assms(6)])
  then show "x \<in> set (connected w')" by (simp add: assms(5))
qed

lemma step_registry_request:
  assumes "registry_ok w"
  shows "registry_ok (step w (Request x rq now))"
proof (cases "attached w x")
  case None
  then show ?thesis using assms by simp
next
  case (Some me)
  then have eq: "step w (Request x rq now) = w\<lparr>st := fst (handle (st w) me x rq now)\<rparr>"
    by simp
  show ?thesis unfolding eq
    by (rule registry_ok_cong [OF _ _ _ _ _ assms]) (simp_all add: handle_online handle_sockets)
qed

lemma disconnect_socket_attached:
  "attached (disconnect_socket w now x) z = (if z = x then None else attached w z)"
  by (cases "attached w x") (simp_all add: disconnect_socket_def)

lemma disconnect_socket_keeps:
  "pending (disconnect_socket w now x) = pending w"
  "conn_of (disconnect_socket w now x) = conn_of w"
  by (cases "attached w x"; simp add: disconnect_socket_def)+

lemma disconnect_socket_registry:
  assumes "registry_ok w"
  shows "registry_ok (disconnect_socket w now x)"
proof (cases "attached w x")
  case None
  then show ?thesis using assms by (simp add: disconnect_socket_def)
next
  case (Some me)
  have reg: "online (st w) me = Some x"
    using registry_ok_attached [OF assms Some] by simp
  let ?s0 = "(st w)\<lparr>sockets := (sockets (st w))(x := None)\<rparr>"
  let ?w' = "w\<lparr>st := fst (on_disconnect ?s0 me x now), attached := (attached w)(x := None),
               connected := removeAll x (connected w)\<rparr>"
  have eq: "disconnect_socket w now x = ?w'" using Some by (simp add: disconnect_socket_def)
  have onl: "online (st ?w') = (online (st w))(me := None)"
    using reg by (simp add: on_disconnect_online)
  have sck: "sockets (st ?w') = (sockets (st w))(x := None)"
    by (simp add: on_disconnect_sockets)
  have att: "attached ?w' = (attached w)(x := None)" by simp
  have pen: "pending ?w' = pending w" by simp
  have lst: "connected ?w' = removeAll x (connected w)" by simp
  have "registry_ok ?w'"
  proof (rule registry_okI)
    fix y u assume "attached ?w' y = Some u"
    then have ne: "y \<noteq> x" and a: "attached w y = Some u"
      unfolding att by (auto split: if_splits)
    have b: "online (st w) u = Some y \<and> sockets (st w) y = Some True"
      using a by (rule registry_ok_attached [OF assms])
    then have "u \<noteq> me" using reg ne by auto
    then show "online (st ?w') u = Some y \<and> sockets (st ?w') y = Some True"
      unfolding onl sck using b ne by simp
  next
    fix u y assume "online (st ?w') u = Some y"
    then have ne: "u \<noteq> me" and a: "online (st w) u = Some y"
      unfolding onl by (auto split: if_splits)
    have b: "attached w y = Some u"
      using a by (rule registry_ok_online [OF assms])
    then have "y \<noteq> x" using Some ne by auto
    then show "attached ?w' y = Some u"
      unfolding att using b by simp
  next
    fix y assume "pending ?w' y \<noteq> None"
    then have "pending w y \<noteq> None" unfolding pen .
    then have "attached w y = None \<and> sockets (st w) y = None"
      using registry_ok_pending [OF assms, of y] by simp
    then show "attached ?w' y = None \<and> sockets (st ?w') y = None"
      unfolding att sck by simp
  next
    fix y assume "attached ?w' y \<noteq> None"
    then have ne: "y \<noteq> x" and "attached w y \<noteq> None"
      unfolding att by (auto split: if_splits)
    then have "y \<in> set (connected w)"
      using registry_ok_listed [OF assms, of y] by simp
    then show "y \<in> set (connected ?w')"
      unfolding lst using ne by simp
  qed
  then show ?thesis by (simp only: eq)
qed

lemma disconnect_all_registry:
  "registry_ok w \<Longrightarrow> registry_ok (disconnect_all w now xs)"
  by (induction xs arbitrary: w) (simp_all add: disconnect_socket_registry)

lemma disconnect_all_attached:
  "attached (disconnect_all w now xs) z = (if z \<in> set xs then None else attached w z)"
  by (induction xs arbitrary: w) (simp_all add: disconnect_socket_attached)

lemma disconnect_all_keeps:
  "pending (disconnect_all w now xs) = pending w"
  "conn_of (disconnect_all w now xs) = conn_of w"
  by (induction xs arbitrary: w; simp add: disconnect_socket_keeps)+

lemma close_connection_attached:
  "attached (close_connection w c now) z =
     (if z \<in> set (connected w) \<and> conn_of w z = c then None else attached w z)"
  by (simp add: close_connection_def Let_def disconnect_all_attached)

lemma close_connection_registry:
  assumes "registry_ok w"
  shows "registry_ok (close_connection w c now)"
proof -
  let ?w' = "disconnect_all w now (filter (\<lambda>x. conn_of w x = c) (connected w))"
  let ?v = "?w'\<lparr>pending := (\<lambda>y. if conn_of w y = c then None else pending ?w' y)\<rparr>"
  have ok: "registry_ok ?w'" using assms by (rule disconnect_all_registry)
  have "registry_ok ?v"
  proof (rule registry_okI)
    fix y u assume "attached ?v y = Some u"
    then have "attached ?w' y = Some u" by simp
    then have "online (st ?w') u = Some y \<and> sockets (st ?w') y = Some True"
      by (rule registry_ok_attached [OF ok])
    then show "online (st ?v) u = Some y \<and> sockets (st ?v) y = Some True" by simp
  next
    fix u y assume "online (st ?v) u = Some y"
    then have "online (st ?w') u = Some y" by simp
    then have "attached ?w' y = Some u" by (rule registry_ok_online [OF ok])
    then show "attached ?v y = Some u" by simp
  next
    fix y assume "pending ?v y \<noteq> None"
    then have "pending ?w' y \<noteq> None" by (simp split: if_splits)
    then have "attached ?w' y = None \<and> sockets (st ?w') y = None"
      by (rule registry_ok_pending [OF ok])
    then show "attached ?v y = None \<and> sockets (st ?v) y = None" by simp
  next
    fix y assume "attached ?v y \<noteq> None"
    then have "attached ?w' y \<noteq> None" by simp
    then have "y \<in> set (connected ?w')" by (rule registry_ok_listed [OF ok])
    then show "y \<in> set (connected ?v)" by simp
  qed
  then show ?thesis by (simp add: close_connection_def Let_def)
qed

lemma registry_ok_untable:
  assumes "registry_ok w" and "attached w x = None"
  shows "registry_ok (w\<lparr>st := (st w)\<lparr>sockets := (sockets (st w))(x := None)\<rparr>\<rparr>)"
proof (rule registry_okI)
  let ?v = "w\<lparr>st := (st w)\<lparr>sockets := (sockets (st w))(x := None)\<rparr>\<rparr>"
  fix y u assume a: "attached ?v y = Some u"
  then have b: "attached w y = Some u" by simp
  then have ne: "y \<noteq> x" using assms(2) by auto
  have "online (st w) u = Some y \<and> sockets (st w) y = Some True"
    using b by (rule registry_ok_attached [OF assms(1)])
  then show "online (st ?v) u = Some y \<and> sockets (st ?v) y = Some True"
    using ne by simp
next
  let ?v = "w\<lparr>st := (st w)\<lparr>sockets := (sockets (st w))(x := None)\<rparr>\<rparr>"
  fix u y assume "online (st ?v) u = Some y"
  then have "online (st w) u = Some y" by simp
  then have "attached w y = Some u" by (rule registry_ok_online [OF assms(1)])
  then show "attached ?v y = Some u" by simp
next
  let ?v = "w\<lparr>st := (st w)\<lparr>sockets := (sockets (st w))(x := None)\<rparr>\<rparr>"
  fix y assume "pending ?v y \<noteq> None"
  then have "pending w y \<noteq> None" by simp
  then have "attached w y = None \<and> sockets (st w) y = None"
    by (rule registry_ok_pending [OF assms(1)])
  then show "attached ?v y = None \<and> sockets (st ?v) y = None" by simp
next
  let ?v = "w\<lparr>st := (st w)\<lparr>sockets := (sockets (st w))(x := None)\<rparr>\<rparr>"
  fix y assume "attached ?v y \<noteq> None"
  then have "attached w y \<noteq> None" by simp
  then have "y \<in> set (connected w)" by (rule registry_ok_listed [OF assms(1)])
  then show "y \<in> set (connected ?v)" by simp
qed

text \<open>The \<open>connection\<close> event of a socket whose identity is free, and of one whose
  identity is held by another socket.\<close>

lemma step_connection_registered:
  assumes "pending w x = Some me" and "online (st w) me = None"
  shows "step w (Connection x now) =
           w\<lparr>st := (st w)\<lparr>sockets := (sockets (st w))(x \<mapsto> True),
                           online := (online (st w))(me \<mapsto> x)\<rparr>,
             pending := (pending w)(x := None), attached := (attached w)(x \<mapsto> me),
             connected := connected w @ [x]\<rparr>"
  using assms by (simp add: on_connection_def)

lemma step_connection_rejected:
  assumes "pending w x = Some me" and "online (st w) me = Some prev" and "prev \<noteq> x"
  shows "step w (Connection x now) =
           (let w1 = close_connection
                       (w\<lparr>st := (st w)\<lparr>sockets := (sockets (st w))(x \<mapsto> True)\<rparr>,
                          pending := (pending w)(x := None)\<rparr>)
                       (conn_of w x) now
            in w1\<lparr>st := (st w1)\<lparr>sockets := (sockets (st w1))(x := None)\<rparr>\<rparr>)"
  using assms by (simp add: on_connection_def)

lemma registry_ok_in_table:
  assumes "registry_ok w" and "pending w x = Some me"
  shows "registry_ok (w\<lparr>st := (st w)\<lparr>sockets := (sockets (st w))(x \<mapsto> True)\<rparr>,
                        pending := (pending w)(x := None)\<rparr>)"
proof (rule registry_okI)
  let ?v = "w\<lparr>st := (st w)\<lparr>sockets := (sockets (st w))(x \<mapsto> True)\<rparr>,
              pending := (pending w)(x := None)\<rparr>"
  fix y u assume "attached ?v y = Some u"
  then have b: "attached w y = Some u" by simp
  have "online (st w) u = Some y \<and> sockets (st w) y = Some True"
    using b by (rule registry_ok_attached [OF assms(1)])
  then show "online (st ?v) u = Some y \<and> sockets (st ?v) y = Some True"
    by simp
next
  let ?v = "w\<lparr>st := (st w)\<lparr>sockets := (sockets (st w))(x \<mapsto> True)\<rparr>,
              pending := (pending w)(x := None)\<rparr>"
  fix u y assume "online (st ?v) u = Some y"
  then have "online (st w) u = Some y" by simp
  then have "attached w y = Some u" by (rule registry_ok_online [OF assms(1)])
  then show "attached ?v y = Some u" by simp
next
  let ?v = "w\<lparr>st := (st w)\<lparr>sockets := (sockets (st w))(x \<mapsto> True)\<rparr>,
              pending := (pending w)(x := None)\<rparr>"
  fix y assume "pending ?v y \<noteq> None"
  then have ne: "y \<noteq> x" and "pending w y \<noteq> None" by (auto split: if_splits)
  then have "attached w y = None \<and> sockets (st w) y = None"
    using registry_ok_pending [OF assms(1), of y] by simp
  then show "attached ?v y = None \<and> sockets (st ?v) y = None"
    using ne by simp
next
  let ?v = "w\<lparr>st := (st w)\<lparr>sockets := (sockets (st w))(x \<mapsto> True)\<rparr>,
              pending := (pending w)(x := None)\<rparr>"
  fix y assume "attached ?v y \<noteq> None"
  then have "attached w y \<noteq> None" by simp
  then have "y \<in> set (connected w)" by (rule registry_ok_listed [OF assms(1)])
  then show "y \<in> set (connected ?v)" by simp
qed

lemma step_registry_connection:
  assumes "registry_ok w"
  shows "registry_ok (step w (Connection x now))"
proof (cases "pending w x")
  case None
  then show ?thesis using assms by simp
next
  case (Some me)
  have fresh: "attached w x = None" "sockets (st w) x = None"
    using registry_ok_pending [OF assms, of x] Some by simp_all
  show ?thesis
  proof (cases "online (st w) me")
    case None
    let ?w' = "w\<lparr>st := (st w)\<lparr>sockets := (sockets (st w))(x \<mapsto> True),
                                online := (online (st w))(me \<mapsto> x)\<rparr>,
                   pending := (pending w)(x := None), attached := (attached w)(x \<mapsto> me),
                   connected := connected w @ [x]\<rparr>"
    have eq: "step w (Connection x now) = ?w'"
      using Some None by (rule step_connection_registered)
    have "registry_ok ?w'"
    proof (rule registry_okI)
      fix y u assume a: "attached ?w' y = Some u"
      show "online (st ?w') u = Some y \<and> sockets (st ?w') y = Some True"
      proof (cases "y = x")
        case True
        then show ?thesis using a by simp
      next
        case False
        then have "attached w y = Some u" using a by simp
        then have "online (st w) u = Some y \<and> sockets (st w) y = Some True"
          by (rule registry_ok_attached [OF assms])
        then show ?thesis using False None by auto
      qed
    next
      fix u y assume a: "online (st ?w') u = Some y"
      show "attached ?w' y = Some u"
      proof (cases "u = me")
        case True
        then show ?thesis using a by simp
      next
        case False
        then have "online (st w) u = Some y" using a by simp
        then have "attached w y = Some u"
          by (rule registry_ok_online [OF assms])
        then show ?thesis using fresh by auto
      qed
    next
      fix y assume a: "pending ?w' y \<noteq> None"
      then have ne: "y \<noteq> x" and "pending w y \<noteq> None"
        by (auto split: if_splits)
      then have "attached w y = None \<and> sockets (st w) y = None"
        using registry_ok_pending [OF assms, of y] by simp
      then show "attached ?w' y = None \<and> sockets (st ?w') y = None"
        using ne by simp
    next
      fix y assume a: "attached ?w' y \<noteq> None"
      show "y \<in> set (connected ?w')"
      proof (cases "y = x")
        case True
        then show ?thesis by simp
      next
        case False
        then have "attached w y \<noteq> None" using a by simp
        then have "y \<in> set (connected w)" by (rule registry_ok_listed [OF assms])
        then show ?thesis by simp
      qed
    qed
    then show ?thesis by (simp only: eq)
  next
    case (Some prev)
    have "attached w prev = Some me"
      using Some by (rule registry_ok_online [OF assms])
    then have ne: "prev \<noteq> x" using fresh by auto
    let ?w0 = "w\<lparr>st := (st w)\<lparr>sockets := (sockets (st w))(x \<mapsto> True)\<rparr>,
                  pending := (pending w)(x := None)\<rparr>"
    let ?w1 = "close_connection ?w0 (conn_of w x) now"
    have eq: "step w (Connection x now) =
                ?w1\<lparr>st := (st ?w1)\<lparr>sockets := (sockets (st ?w1))(x := None)\<rparr>\<rparr>"
      using step_connection_rejected [OF \<open>pending w x = Some me\<close> Some ne, of now]
      by (simp add: Let_def)
    have "registry_ok ?w0"
      using assms \<open>pending w x = Some me\<close> by (rule registry_ok_in_table)
    then have ok1: "registry_ok ?w1" by (rule close_connection_registry)
    have "attached ?w1 x = None"
      using fresh by (simp add: close_connection_attached)
    with ok1 have "registry_ok (?w1\<lparr>st := (st ?w1)\<lparr>sockets := (sockets (st ?w1))(x := None)\<rparr>\<rparr>)"
      by (rule registry_ok_untable)
    then show ?thesis by (simp only: eq)
  qed
qed

lemma step_registry:
  assumes "registry_ok w"
  shows "registry_ok (step w e)"
proof (cases e)
  case (Handshake x c raw)
  then show ?thesis using assms by (simp only: step_registry_handshake)
next
  case (Connection x now)
  then show ?thesis using assms by (simp only: step_registry_connection)
next
  case (Request x rq now)
  then show ?thesis using assms by (simp only: step_registry_request)
next
  case (Disconnect x now)
  then show ?thesis using assms by (simp add: disconnect_socket_registry)
next
  case (Close c now)
  then show ?thesis using assms by (simp add: close_connection_registry)
qed

lemma run_registry: "registry_ok (run es)"
proof (induction es rule: rev_induct)
  case Nil
  show ?case by (simp add: run_def init_system_def init_state_def registry_ok_def)
next
  case (snoc e es)
  then show ?case by (simp add: run_snoc step_registry)
qed

text \<open>
  What the \<open>connection\<close> event of a socket does when another socket holds the
  identity: the socket never gets listeners and leaves the table, and its connection is
  closed; a holder on the same connection is disconnected with it and the registry entry
  goes, a holder on another connection would stay.
\<close>

lemma rejected_connection:
  assumes "registry_ok w" and "attached w x = Some ident" and "pending w y = Some ident"
  shows "attached (step w (Connection y now)) y = None"
    and "sockets (st (step w (Connection y now))) y = None"
    and "pending (step w (Connection y now)) y = None"
    and "attached (step w (Connection y now)) x =
           (if conn_of w x = conn_of w y then None else Some ident)"
    and "online (st (step w (Connection y now))) ident =
           (if conn_of w x = conn_of w y then None else Some x)"
proof -
  have o: "online (st w) ident = Some x"
    using registry_ok_attached [OF assms(1,2)] by simp
  have fresh: "attached w y = None"
    using registry_ok_pending [OF assms(1), of y] assms(3) by simp
  then have ne: "x \<noteq> y" using assms(2) by auto
  have listed: "x \<in> set (connected w)"
    using registry_ok_listed [OF assms(1), of x] assms(2) by simp
  define w0 where "w0 = w\<lparr>st := (st w)\<lparr>sockets := (sockets (st w))(y \<mapsto> True)\<rparr>,
                          pending := (pending w)(y := None)\<rparr>"
  define w1 where "w1 = close_connection w0 (conn_of w y) now"
  define v where "v = step w (Connection y now)"
  have eq: "v = w1\<lparr>st := (st w1)\<lparr>sockets := (sockets (st w1))(y := None)\<rparr>\<rparr>"
    unfolding v_def w1_def w0_def
    using step_connection_rejected [OF assms(3) o ne, of now] by (simp add: Let_def)
  have att: "attached v z =
               (if z \<in> set (connected w) \<and> conn_of w z = conn_of w y then None else attached w z)"
    for z
    unfolding eq w1_def by (simp add: close_connection_attached w0_def)
  have vy: "attached v y = None" using fresh by (simp add: att)
  have sy: "sockets (st v) y = None" unfolding eq by simp
  have py: "pending v y = None"
    unfolding eq w1_def by (simp add: close_connection_def Let_def w0_def)
  have ax: "attached v x = (if conn_of w x = conn_of w y then None else Some ident)"
    using listed assms(2) by (simp add: att)
  have ok: "registry_ok v" unfolding v_def using assms(1) by (rule step_registry)
  have on: "online (st v) ident = (if conn_of w x = conn_of w y then None else Some x)"
  proof (cases "conn_of w x = conn_of w y")
    case False
    then have "attached v x = Some ident" using ax by simp
    then have "online (st v) ident = Some x"
      using registry_ok_attached [OF ok, of x ident] by simp
    then show ?thesis using False by simp
  next
    case True
    have "online (st v) ident = None"
    proof (cases "online (st v) ident")
      case None
      then show ?thesis .
    next
      case (Some u)
      then have a: "attached v u = Some ident" by (rule registry_ok_online [OF ok])
      then have "attached w u = Some ident" by (simp add: att split: if_splits)
      then have "online (st w) ident = Some u"
        using registry_ok_attached [OF assms(1), of u ident] by simp
      then have "u = x" using o by simp
      then show ?thesis using a ax True by simp
    qed
    then show ?thesis using True by simp
  qed
  show "attached (step w (Connection y now)) y = None" using vy by (simp only: v_def)
  show "sockets (st (step w (Connection y now))) y = None" using sy by (simp only: v_def)
  show "pending (step w (Connection y now)) y = None" using py by (simp only: v_def)
  show "attached (step w (Connection y now)) x =
           (if conn_of w x = conn_of w y then None else Some ident)"
    using ax by (simp only: v_def)
  show "online (st (step w (Connection y now))) ident =
           (if conn_of w x = conn_of w y then None else Some x)"
    using on by (simp only: v_def)
qed

section \<open>Removing the last member\<close>

lemma set_delete_empty_iff: "set_delete x xs = [] \<longleftrightarrow> set xs \<subseteq> {x}"
  by (induction xs) (auto simp: set_delete_def)

lemma leave_all_absent:
  "rooms s rid = None \<Longrightarrow> rooms (fst (leave_all s me now ks)) rid = None"
proof (induction ks arbitrary: s)
  case Nil
  then show ?case by simp
next
  case (Cons k ks)
  show ?case
  proof (cases "rooms s k")
    case None
    then show ?thesis using Cons by simp
  next
    case (Some r)
    then have ne: "k \<noteq> rid" using Cons.prems by auto
    show ?thesis
    proof (cases "set_delete me (members r) = []")
      case True
      have "rooms (fst (leave_all (s\<lparr>rooms := (rooms s)(k := None)\<rparr>) me now ks)) rid = None"
        using Cons.prems by (intro Cons.IH) simp
      then show ?thesis using Some True by (auto simp: Let_def split: prod.splits)
    next
      case False
      let ?s1 = "s\<lparr>rooms := (rooms s)(k \<mapsto> r\<lparr>members := set_delete me (members r)\<rparr>)\<rparr>"
      have "rooms (fst (leave_all ?s1 me now ks)) rid = None"
        using Cons.prems ne by (intro Cons.IH) simp
      then show ?thesis using Some False by (auto simp: Let_def split: prod.splits)
    qed
  qed
qed

lemma leave_all_deletes:
  "rid \<in> set ks \<Longrightarrow> rooms s rid = Some r \<Longrightarrow> set (members r) \<subseteq> {me} \<Longrightarrow>
   rooms (fst (leave_all s me now ks)) rid = None"
proof (induction ks arbitrary: s)
  case Nil
  then show ?case by simp
next
  case (Cons k ks)
  show ?case
  proof (cases "k = rid")
    case True
    have e: "set_delete me (members r) = []"
      using Cons.prems(3) by (simp add: set_delete_empty_iff)
    have "rooms (fst (leave_all (s\<lparr>rooms := (rooms s)(rid := None)\<rparr>) me now ks)) rid = None"
      by (rule leave_all_absent) simp
    then show ?thesis using True Cons.prems(2) e by (auto simp: Let_def split: prod.splits)
  next
    case False
    then have mem: "rid \<in> set ks" using Cons.prems(1) by simp
    show ?thesis
    proof (cases "rooms s k")
      case None
      then show ?thesis using Cons.IH [OF mem Cons.prems(2,3)] by simp
    next
      case (Some q)
      show ?thesis
      proof (cases "set_delete me (members q) = []")
        case True
        have "rooms (fst (leave_all (s\<lparr>rooms := (rooms s)(k := None)\<rparr>) me now ks)) rid = None"
          using Cons.prems(2,3) False by (intro Cons.IH [OF mem]) simp_all
        then show ?thesis using Some True by (auto simp: Let_def split: prod.splits)
      next
        case nonempty: False
        let ?s1 = "s\<lparr>rooms := (rooms s)(k \<mapsto> q\<lparr>members := set_delete me (members q)\<rparr>)\<rparr>"
        have "rooms (fst (leave_all ?s1 me now ks)) rid = None"
          using Cons.prems(2,3) False by (intro Cons.IH [OF mem]) simp_all
        then show ?thesis using Some nonempty by (auto simp: Let_def split: prod.splits)
      qed
    qed
  qed
qed

lemma on_disconnect_deletes:
  assumes "userRooms s me = Some urs" and "rid \<in> set urs"
    and "rooms s rid = Some r" and "set (members r) \<subseteq> {me}"
  shows "rooms (fst (on_disconnect s me sid now)) rid = None"
proof -
  let ?s1 = "if online s me = Some sid then s\<lparr>online := (online s)(me := None)\<rparr> else s"
  have g: "getUserRooms ?s1 me = (?s1, urs)"
    using assms(1) by (simp add: getUserRooms_def)
  have "rooms ?s1 rid = Some r" using assms(3) by simp
  then have "rooms (fst (leave_all ?s1 me now urs)) rid = None"
    using assms(2,4) by (intro leave_all_deletes) simp_all
  then show ?thesis
    using g by (auto simp: on_disconnect_def Let_def split: prod.splits)
qed

section \<open>The membership index\<close>

lemma set_set_add: "set (set_add x xs) = insert x (set xs)"
  by (auto simp: set_add_def)

lemma set_set_delete: "set (set_delete x xs) = set xs - {x}"
  by (auto simp: set_delete_def)

lemma is_indexed_other_fields:
  "is_indexed (s\<lparr>rooms := m\<rparr>) = is_indexed s"
  "is_indexed (s\<lparr>invites := n\<rparr>) = is_indexed s"
  "is_indexed (s\<lparr>online := p\<rparr>) = is_indexed s"
  by (simp_all add: is_indexed_def fun_eq_iff)

lemma is_member_other_fields:
  "is_member (s\<lparr>invites := n\<rparr>) = is_member s"
  "is_member (s\<lparr>online := p\<rparr>) = is_member s"
  "is_member (s\<lparr>userRooms := q\<rparr>) = is_member s"
  by (simp_all add: is_member_def fun_eq_iff)

lemma is_indexed_track:
  "is_indexed (track s v k) u rid \<longleftrightarrow> is_indexed s u rid \<or> (u = v \<and> rid = k)"
  by (auto simp: is_indexed_def track_def getUserRooms_def set_add_def split: option.splits)

lemma is_indexed_untrack:
  "is_indexed (untrack s v k) u rid \<longleftrightarrow> is_indexed s u rid \<and> \<not> (u = v \<and> rid = k)"
  by (auto simp: is_indexed_def untrack_def getUserRooms_def set_delete_def split: option.splits)

lemma is_member_track: "is_member (track s v k) u rid = is_member s u rid"
  by (simp add: is_member_def track_fields)

lemma is_member_untrack: "is_member (untrack s v k) u rid = is_member s u rid"
  by (simp add: is_member_def untrack_fields)

lemma room_create_index:
  assumes "index_consistent s"
  shows "index_consistent (fst (room_create s me sid roomId password now))"
proof (cases "truthy roomId \<and> rooms s (normalise roomId) = None")
  case False
  then show ?thesis using assms by (auto simp: room_create_def Let_def)
next
  case True
  let ?k = "normalise roomId"
  have "\<And>u. \<not> is_member s u ?k"
    using True by (simp add: is_member_def)
  then have none: "\<And>u. \<not> is_indexed s u ?k"
    using assms by (simp add: index_consistent_def)
  show ?thesis
    unfolding index_consistent_def
  proof (intro allI)
    fix u rid
    have m: "is_member (fst (room_create s me sid roomId password now)) u rid =
               (if rid = ?k then u = me else is_member s u rid)"
      using True by (simp add: room_create_def Let_def is_member_def track_fields)
    have i: "is_indexed (fst (room_create s me sid roomId password now)) u rid =
               (is_indexed s u rid \<or> (u = me \<and> rid = ?k))"
      using True by (auto simp: room_create_def Let_def is_indexed_track is_indexed_other_fields)
    show "is_member (fst (room_create s me sid roomId password now)) u rid =
          is_indexed (fst (room_create s me sid roomId password now)) u rid"
      using m i none assms by (auto simp: index_consistent_def)
  qed
qed


lemma room_invite_index:
  "index_consistent s \<Longrightarrow> index_consistent (fst (room_invite s me roomId peerId tok now))"
  by (auto simp: room_invite_def Let_def index_consistent_def is_member_def is_indexed_def
      split: option.splits)

lemma room_reject_index:
  "index_consistent s \<Longrightarrow> index_consistent (fst (room_reject s me inviteId now))"
  by (auto simp: room_reject_def index_consistent_def is_member_def is_indexed_def
      split: option.splits)

lemma room_send_index:
  "index_consistent s \<Longrightarrow> index_consistent (fst (room_send s me roomId text mid now))"
  by (auto simp: room_send_def Let_def split: option.splits)

lemma index_consistent_invites:
  "index_consistent (s\<lparr>invites := m\<rparr>) = index_consistent s"
  by (simp add: index_consistent_def is_member_def is_indexed_def)

lemma room_accept_index:
  assumes "index_consistent s"
  shows "index_consistent (fst (room_accept s me inviteId now))"
proof (cases "map_get (invites s) inviteId")
  case None
  then show ?thesis using assms by (simp add: room_accept_def)
next
  case (Some invt)
  show ?thesis
  proof (cases "inv_toId invt = me \<and> rooms s (inv_roomId invt) \<noteq> None \<and>
                online s (inv_fromId invt) \<noteq> None \<and> online s (inv_toId invt) \<noteq> None")
    case False
    then show ?thesis using assms Some
      by (auto simp: room_accept_def index_consistent_invites split: option.splits)
  next
    case True
    then obtain r where r: "rooms s (inv_roomId invt) = Some r" by auto
    let ?k = "inv_roomId invt"
    let ?s' = "fst (room_accept s me inviteId now)"
    show ?thesis unfolding index_consistent_def
    proof (intro allI)
      fix u rid
      have rs: "rooms ?s' = (rooms s)(?k \<mapsto>
                  r\<lparr>members := set_add (inv_toId invt) (set_add (inv_fromId invt) (members r))\<rparr>)"
        using True Some r by (auto simp: room_accept_def Let_def track_fields)
      have m: "is_member ?s' u rid =
                 (is_member s u rid \<or> (rid = ?k \<and> (u = inv_fromId invt \<or> u = inv_toId invt)))"
        using r by (cases "rid = ?k") (auto simp: is_member_def rs set_set_add)
      have i: "is_indexed ?s' u rid =
                 (is_indexed s u rid \<or> (rid = ?k \<and> (u = inv_fromId invt \<or> u = inv_toId invt)))"
        using True Some r
        by (auto simp: room_accept_def Let_def is_indexed_track is_indexed_other_fields)
      show "is_member ?s' u rid = is_indexed ?s' u rid"
        using m i assms by (simp add: index_consistent_def)
    qed
  qed
qed

lemma is_member_remove:
  assumes "rooms s k = Some r"
    and "rooms t = (if set_delete me (members r) = [] then (rooms s)(k := None)
                    else (rooms s)(k \<mapsto> r\<lparr>members := set_delete me (members r)\<rparr>))"
  shows "is_member t u rid \<longleftrightarrow> is_member s u rid \<and> \<not> (u = me \<and> rid = k)"
proof (cases "rid = k")
  case False
  then show ?thesis using assms by (simp add: is_member_def)
next
  case True
  show ?thesis
  proof (cases "set_delete me (members r) = []")
    case empty: True
    then have "set (members r) \<subseteq> {me}" by (simp add: set_delete_empty_iff)
    then show ?thesis using assms True empty by (auto simp: is_member_def)
  next
    case False
    then show ?thesis using assms True by (auto simp: is_member_def set_set_delete)
  qed
qed

lemma room_leave_index:
  assumes "index_consistent s"
  shows "index_consistent (fst (room_leave s me sid roomId now))"
proof (cases "\<exists>k r. truthy roomId \<and> roomId = JStr k \<and> rooms s k = Some r \<and> me \<in> set (members r)")
  case False
  then show ?thesis using assms
    by (auto simp: room_leave_def split: jsval.splits option.splits)
next
  case True
  then obtain k r where k: "truthy roomId" "roomId = JStr k" "rooms s k = Some r" "me \<in> set (members r)"
    by blast
  let ?s' = "fst (room_leave s me sid roomId now)"
  have rs: "rooms ?s' = (if set_delete me (members r) = [] then (rooms s)(k := None)
                    else (rooms s)(k \<mapsto> r\<lparr>members := set_delete me (members r)\<rparr>))"
    using k by (auto simp: room_leave_def Let_def untrack_fields)
  show ?thesis unfolding index_consistent_def
  proof (intro allI)
    fix u rid
    have m: "is_member ?s' u rid \<longleftrightarrow> is_member s u rid \<and> \<not> (u = me \<and> rid = k)"
      using k(3) rs by (rule is_member_remove)
    have i: "is_indexed ?s' u rid \<longleftrightarrow> is_indexed s u rid \<and> \<not> (u = me \<and> rid = k)"
      using k by (auto simp: room_leave_def Let_def is_indexed_untrack is_indexed_other_fields)
    show "is_member ?s' u rid = is_indexed ?s' u rid"
      using m i assms by (simp add: index_consistent_def)
  qed
qed

lemma leave_all_userRooms: "userRooms (fst (leave_all s me now ks)) = userRooms s"
proof (induction ks arbitrary: s)
  case Nil
  show ?case by simp
next
  case (Cons k ks)
  show ?case
  proof (cases "rooms s k")
    case None
    then show ?thesis using Cons by simp
  next
    case (Some r)
    show ?thesis
    proof (cases "set_delete me (members r) = []")
      case True
      have "userRooms (fst (leave_all (s\<lparr>rooms := (rooms s)(k := None)\<rparr>) me now ks)) =
            userRooms (s\<lparr>rooms := (rooms s)(k := None)\<rparr>)"
        by (rule Cons.IH)
      then show ?thesis using Some True by (auto simp: Let_def split: prod.splits)
    next
      case False
      let ?s1 = "s\<lparr>rooms := (rooms s)(k \<mapsto> r\<lparr>members := set_delete me (members r)\<rparr>)\<rparr>"
      have "userRooms (fst (leave_all ?s1 me now ks)) = userRooms ?s1"
        by (rule Cons.IH)
      then show ?thesis using Some False by (auto simp: Let_def split: prod.splits)
    qed
  qed
qed

lemma leave_all_member:
  "is_member (fst (leave_all s me now ks)) u rid \<longleftrightarrow>
     is_member s u rid \<and> \<not> (u = me \<and> rid \<in> set ks)"
proof (induction ks arbitrary: s)
  case Nil
  show ?case by simp
next
  case (Cons k ks)
  show ?case
  proof (cases "rooms s k")
    case None
    then have "\<not> is_member s u k" by (simp add: is_member_def)
    then show ?thesis using None Cons.IH [of s] by auto
  next
    case (Some r)
    let ?s2 = "if set_delete me (members r) = [] then s\<lparr>rooms := (rooms s)(k := None)\<rparr>
               else s\<lparr>rooms := (rooms s)(k \<mapsto> r\<lparr>members := set_delete me (members r)\<rparr>)\<rparr>"
    have step: "fst (leave_all s me now (k # ks)) = fst (leave_all ?s2 me now ks)"
      using Some by (auto simp: Let_def split: prod.splits)
    have "rooms ?s2 = (if set_delete me (members r) = [] then (rooms s)(k := None)
                    else (rooms s)(k \<mapsto> r\<lparr>members := set_delete me (members r)\<rparr>))"
      by simp
    with Some have one: "is_member ?s2 u rid \<longleftrightarrow> is_member s u rid \<and> \<not> (u = me \<and> rid = k)"
      by (rule is_member_remove)
    show ?thesis
      unfolding step Cons.IH [of ?s2] one by auto
  qed
qed

lemma on_disconnect_member:
  "is_member (fst (on_disconnect s me sid now)) u rid \<longleftrightarrow>
     is_member s u rid \<and> \<not> (u = me \<and> is_indexed s me rid)"
proof -
  let ?s1 = "if online s me = Some sid then s\<lparr>online := (online s)(me := None)\<rparr> else s"
  let ?s2 = "fst (getUserRooms ?s1 me)"
  let ?urs = "snd (getUserRooms ?s1 me)"
  have u: "rid \<in> set ?urs \<longleftrightarrow> is_indexed s me rid"
    by (auto simp: getUserRooms_def is_indexed_def split: option.splits)
  have m2: "is_member ?s2 u rid = is_member s u rid"
    by (simp add: is_member_def getUserRooms_fields)
  have "rooms (fst (on_disconnect s me sid now)) = rooms (fst (leave_all ?s2 me now ?urs))"
    by (auto simp: on_disconnect_def Let_def split: prod.splits)
  then have "is_member (fst (on_disconnect s me sid now)) u rid =
             is_member (fst (leave_all ?s2 me now ?urs)) u rid"
    by (simp add: is_member_def)
  then show ?thesis
    by (simp only: leave_all_member m2 u)
qed

lemma on_disconnect_indexed:
  "is_indexed (fst (on_disconnect s me sid now)) u rid \<longleftrightarrow> u \<noteq> me \<and> is_indexed s u rid"
proof -
  let ?s1 = "if online s me = Some sid then s\<lparr>online := (online s)(me := None)\<rparr> else s"
  let ?s2 = "fst (getUserRooms ?s1 me)"
  let ?urs = "snd (getUserRooms ?s1 me)"
  have "userRooms (fst (on_disconnect s me sid now)) =
        (userRooms (fst (leave_all ?s2 me now ?urs)))(me := None)"
    by (auto simp: on_disconnect_def Let_def split: prod.splits)
  then have "userRooms (fst (on_disconnect s me sid now)) = (userRooms ?s2)(me := None)"
    by (simp only: leave_all_userRooms)
  then show ?thesis
    by (auto simp: is_indexed_def getUserRooms_def split: option.splits)
qed

lemma on_disconnect_index:
  "index_consistent s \<Longrightarrow> index_consistent (fst (on_disconnect s me sid now))"
  unfolding index_consistent_def
  by (auto simp: on_disconnect_member on_disconnect_indexed)

lemma on_disconnect_leaves_every_room:
  "index_consistent s \<Longrightarrow> \<not> is_member (fst (on_disconnect s me sid now)) me rid"
  by (simp add: on_disconnect_member index_consistent_def)

lemma handle_keeps_index:
  assumes "index_consistent s" and "\<And>roomId password. rq \<noteq> Join roomId password"
  shows "index_consistent (fst (handle s me sid rq now))"
proof (cases rq)
  case (Join roomId password)
  then show ?thesis using assms(2) by blast
qed (simp_all add: assms(1) room_create_index room_invite_index room_accept_index
       room_reject_index room_leave_index room_send_index)

lemma leave_all_invites: "invites (fst (leave_all s me now ks)) = invites s"
proof (induction ks arbitrary: s)
  case Nil
  show ?case by simp
next
  case (Cons k ks)
  show ?case
  proof (cases "rooms s k")
    case None
    then show ?thesis using Cons by simp
  next
    case (Some r)
    let ?s2 = "if set_delete me (members r) = [] then s\<lparr>rooms := (rooms s)(k := None)\<rparr>
               else s\<lparr>rooms := (rooms s)(k \<mapsto> r\<lparr>members := set_delete me (members r)\<rparr>)\<rparr>"
    have "fst (leave_all s me now (k # ks)) = fst (leave_all ?s2 me now ks)"
      using Some by (auto simp: Let_def split: prod.splits)
    then show ?thesis by (simp only: Cons.IH [of ?s2]) simp
  qed
qed

lemma on_disconnect_invites:
  "invites (fst (on_disconnect s me sid now)) = drop_invites (invites s) me"
proof -
  let ?s1 = "if online s me = Some sid then s\<lparr>online := (online s)(me := None)\<rparr> else s"
  let ?s2 = "fst (getUserRooms ?s1 me)"
  let ?urs = "snd (getUserRooms ?s1 me)"
  have "invites (fst (on_disconnect s me sid now)) =
        drop_invites (invites (fst (leave_all ?s2 me now ?urs))) me"
    by (auto simp: on_disconnect_def Let_def split: prod.splits)
  then show ?thesis
    by (simp add: leave_all_invites getUserRooms_fields)
qed

lemma leave_all_effects:
  "e \<in> set (snd (leave_all s me now ks)) \<Longrightarrow>
   \<exists>rid \<in> set ks. e = EmitRoom rid (room_system rid (LeftDisconnected me) now)"
proof (induction ks arbitrary: s)
  case Nil
  then show ?case by simp
next
  case (Cons k ks)
  show ?case
  proof (cases "rooms s k")
    case None
    then show ?thesis using Cons by auto
  next
    case (Some r)
    let ?s2 = "if set_delete me (members r) = [] then s\<lparr>rooms := (rooms s)(k := None)\<rparr>
               else s\<lparr>rooms := (rooms s)(k \<mapsto> r\<lparr>members := set_delete me (members r)\<rparr>)\<rparr>"
    have "snd (leave_all s me now (k # ks)) =
          EmitRoom k (room_system k (LeftDisconnected me) now) # snd (leave_all ?s2 me now ks)"
      using Some by (auto simp: Let_def split: prod.splits)
    then show ?thesis using Cons.prems Cons.IH [of ?s2] by auto
  qed
qed

section \<open>A room without a password stays unlocked\<close>

lemma unlocked_or_absent_same:
  "rooms t = rooms s \<Longrightarrow> unlocked_or_absent s rid \<Longrightarrow> unlocked_or_absent t rid"
  by (simp add: unlocked_or_absent_def)

lemma leave_all_unlocked:
  "unlocked_or_absent s rid \<Longrightarrow> unlocked_or_absent (fst (leave_all s me now ks)) rid"
proof (induction ks arbitrary: s)
  case Nil
  then show ?case by simp
next
  case (Cons k ks)
  show ?case
  proof (cases "rooms s k")
    case None
    then show ?thesis using Cons by simp
  next
    case (Some r)
    let ?s2 = "if set_delete me (members r) = [] then s\<lparr>rooms := (rooms s)(k := None)\<rparr>
               else s\<lparr>rooms := (rooms s)(k \<mapsto> r\<lparr>members := set_delete me (members r)\<rparr>)\<rparr>"
    have step: "fst (leave_all s me now (k # ks)) = fst (leave_all ?s2 me now ks)"
      using Some by (auto simp: Let_def split: prod.splits)
    have "unlocked_or_absent ?s2 rid"
    proof (cases "rid = k")
      case True
      then have "pass r = None" using Cons.prems Some by (simp add: unlocked_or_absent_def)
      then show ?thesis using True by (simp add: unlocked_or_absent_def)
    next
      case False
      then show ?thesis using Cons.prems by (simp add: unlocked_or_absent_def)
    qed
    then show ?thesis unfolding step by (rule Cons.IH)
  qed
qed

lemma on_disconnect_unlocked:
  assumes "unlocked_or_absent s rid"
  shows "unlocked_or_absent (fst (on_disconnect s me sid now)) rid"
proof -
  let ?s1 = "if online s me = Some sid then s\<lparr>online := (online s)(me := None)\<rparr> else s"
  let ?s2 = "fst (getUserRooms ?s1 me)"
  let ?urs = "snd (getUserRooms ?s1 me)"
  have "rooms ?s2 = rooms s" by (simp add: getUserRooms_fields)
  then have "unlocked_or_absent ?s2 rid"
    using assms by (rule unlocked_or_absent_same)
  then have l: "unlocked_or_absent (fst (leave_all ?s2 me now ?urs)) rid"
    by (rule leave_all_unlocked)
  have "rooms (fst (on_disconnect s me sid now)) = rooms (fst (leave_all ?s2 me now ?urs))"
    by (auto simp: on_disconnect_def Let_def split: prod.splits)
  then show ?thesis using l by (rule unlocked_or_absent_same)
qed

lemma handle_unlocked:
  assumes "unlocked_or_absent s rid" and "\<not> locking_create rid (Request x rq now)"
  shows "unlocked_or_absent (fst (handle s me x rq now)) rid"
proof (cases rq)
  case (Exists roomId)
  then show ?thesis using assms by simp
next
  case (Create roomId password)
  then show ?thesis using assms
    by (auto simp: room_create_def Let_def track_fields unlocked_or_absent_def split: option.splits)
next
  case (Join roomId password)
  then show ?thesis using assms
    by (auto simp: room_join_def Let_def unlocked_or_absent_def split: option.splits)
next
  case (Invite roomId peerId inviteId)
  then show ?thesis using assms
    by (auto simp: room_invite_def Let_def unlocked_or_absent_def split: option.splits)
next
  case (Accept inviteId)
  then show ?thesis using assms
    by (auto simp: room_accept_def Let_def track_fields unlocked_or_absent_def split: option.splits)
next
  case (Reject inviteId)
  then show ?thesis using assms
    by (auto simp: room_reject_def unlocked_or_absent_def split: option.splits)
next
  case (Leave roomId)
  then show ?thesis using assms
    by (auto simp: room_leave_def Let_def untrack_fields unlocked_or_absent_def
        split: option.splits jsval.splits)
next
  case (Send roomId body mid)
  then show ?thesis using assms
    by (auto simp: room_send_def Let_def split: option.splits)
qed

lemma disconnect_socket_unlocked:
  assumes "unlocked_or_absent (st w) rid"
  shows "unlocked_or_absent (st (disconnect_socket w now x)) rid"
proof (cases "attached w x")
  case None
  then show ?thesis using assms by (simp add: disconnect_socket_def)
next
  case (Some me)
  have "unlocked_or_absent ((st w)\<lparr>sockets := (sockets (st w))(x := None)\<rparr>) rid"
    using assms by (simp add: unlocked_or_absent_def)
  then show ?thesis using Some
    by (simp add: disconnect_socket_def on_disconnect_unlocked)
qed

lemma disconnect_all_unlocked:
  "unlocked_or_absent (st w) rid \<Longrightarrow> unlocked_or_absent (st (disconnect_all w now xs)) rid"
  by (induction xs arbitrary: w) (simp_all add: disconnect_socket_unlocked)

lemma close_connection_unlocked:
  "unlocked_or_absent (st w) rid \<Longrightarrow> unlocked_or_absent (st (close_connection w c now)) rid"
  by (simp add: close_connection_def Let_def disconnect_all_unlocked)

lemma step_unlocked:
  assumes "unlocked_or_absent (st w) rid" and "\<not> locking_create rid e"
  shows "unlocked_or_absent (st (step w e)) rid"
proof (cases e)
  case (Handshake x c raw)
  then show ?thesis using assms by (simp split: sum.splits)
next
  case (Connection x now)
  show ?thesis
  proof (cases "pending w x")
    case None
    then show ?thesis using assms Connection by simp
  next
    case (Some me)
    let ?s0 = "(st w)\<lparr>sockets := (sockets (st w))(x \<mapsto> True)\<rparr>"
    obtain s1 registered effs where oc: "on_connection ?s0 me x = (s1, registered, effs)"
      by (cases "on_connection ?s0 me x") auto
    have "rooms s1 = rooms (st w)"
      using on_connection_rooms [of ?s0 me x] oc by simp
    then have s1: "unlocked_or_absent s1 rid"
      using assms(1) by (rule unlocked_or_absent_same)
    show ?thesis
    proof (cases registered)
      case True
      then show ?thesis using Connection Some oc s1 by simp
    next
      case False
      let ?w0 = "w\<lparr>st := s1, pending := (pending w)(x := None)\<rparr>"
      have "unlocked_or_absent (st (close_connection ?w0 (conn_of w x) now)) rid"
        using s1 by (intro close_connection_unlocked) simp
      then show ?thesis using Connection Some oc False
        by (simp add: Let_def unlocked_or_absent_def)
    qed
  qed
next
  case (Request x rq now)
  then show ?thesis using assms
    by (auto simp: handle_unlocked split: option.splits)
next
  case (Disconnect x now)
  then show ?thesis using assms by (simp add: disconnect_socket_unlocked)
next
  case (Close c now)
  then show ?thesis using assms by (simp add: close_connection_unlocked)
qed

lemma steps_unlocked:
  "unlocked_or_absent (st w) rid \<Longrightarrow> \<forall>e \<in> set es. \<not> locking_create rid e \<Longrightarrow>
   unlocked_or_absent (st (foldl step w es)) rid"
  by (induction es arbitrary: w) (simp_all add: step_unlocked)

section \<open>Evaluating the example runs\<close>

lemmas handler_defs =
  io_use_def on_connection_def on_disconnect_def disconnect_socket_def close_connection_def
  room_exists_def room_create_def room_join_def
  room_invite_def room_accept_def room_reject_def room_leave_def room_send_def
  normalise_def slice0_def trim_def is_whitespace_def track_def untrack_def getUserRooms_def
  set_add_def set_delete_def map_get_def map_delete_def or_empty_def locked_def
  join_if_present_def drop_invites_def Let_def

lemmas demo_defs =
  run_def init_system_def init_state_def demo_room_def demo_joined_def demo_invited_def
  demo_connected_def demo_accepted_def demo_vanished_def demo_locked_def demo_race_def
  demo_joined_disconnected_def alice_def bob_def r1_def secret_def token_def ascii_def

lemma demo_room_st:
  "st (run demo_room) =
     \<lparr> online = [alice \<mapsto> 1, bob \<mapsto> 2],
       rooms = [r1 \<mapsto> \<lparr> members = [alice], pass = None \<rparr>],
       invites = Map.empty,
       userRooms = [alice \<mapsto> [r1]],
       sockets = [1 \<mapsto> True, 2 \<mapsto> True] \<rparr>"
  by (simp add: handler_defs demo_defs)

lemma demo_room_attached:
  "attached (run demo_room) 1 = Some alice" "attached (run demo_room) 2 = Some bob"
  by (simp_all add: handler_defs demo_defs)

lemma demo_connected_st:
  "rooms (st (run demo_connected)) r1 = None" "attached (run demo_connected) 1 = Some alice"
  by (simp_all add: handler_defs demo_defs)

lemma normalise_r1: "normalise (JStr r1) = r1" "trim (String (JStr r1)) = r1" "truthy (JStr r1)" "r1 \<noteq> []"
  by (simp_all add: handler_defs demo_defs)

lemma names_differ: "alice \<noteq> bob" "bob \<noteq> alice" "secret \<noteq> []" "token \<noteq> []"
  by (simp_all add: demo_defs)

lemma demo_invited_st:
  "st (run demo_invited) =
     \<lparr> online = [alice \<mapsto> 1, bob \<mapsto> 2],
       rooms = [r1 \<mapsto> \<lparr> members = [alice], pass = None \<rparr>],
       invites = [token \<mapsto> \<lparr> inv_roomId = r1, inv_fromId = alice, inv_toId = bob,
                             inv_createdAt = 20 \<rparr>],
       userRooms = [alice \<mapsto> [r1]],
       sockets = [1 \<mapsto> True, 2 \<mapsto> True] \<rparr>"
  by (simp add: handler_defs demo_defs)

lemma demo_accepted_rooms:
  "rooms (st (run demo_accepted)) r1 = Some \<lparr> members = [alice, bob], pass = None \<rparr>"
  "invites (st (run demo_accepted)) token = None"
  "userRooms (st (run demo_accepted)) bob = Some [r1]"
  by (simp_all add: handler_defs demo_defs)

lemma demo_vanished_st:
  "rooms (st (run demo_vanished)) r1 = None"
  "invites (st (run demo_vanished)) token =
     Some \<lparr> inv_roomId = r1, inv_fromId = alice, inv_toId = bob, inv_createdAt = 20 \<rparr>"
  by (simp_all add: handler_defs demo_defs)

lemma demo_locked_st:
  "st (run demo_locked) =
     \<lparr> online = [alice \<mapsto> 1, bob \<mapsto> 2],
       rooms = [r1 \<mapsto> \<lparr> members = [alice], pass = Some secret \<rparr>],
       invites = Map.empty,
       userRooms = [alice \<mapsto> [r1]],
       sockets = [1 \<mapsto> True, 2 \<mapsto> True] \<rparr>"
  by (simp add: handler_defs demo_defs)

lemma demo_race_st:
  "attached (run demo_race) 1 = Some alice" "pending (run demo_race) 2 = Some alice"
  "online (st (run demo_race)) alice = Some 1"
  "conn_of (run demo_race) 1 = 7" "conn_of (run demo_race) 2 = 7"
  by (simp_all add: handler_defs demo_defs)

lemma demo_joined_st:
  "rooms (st (run demo_joined)) r1 = Some \<lparr> members = [alice, bob], pass = None \<rparr>"
  "userRooms (st (run demo_joined)) bob = None"
  "userRooms (st (run demo_joined)) alice = Some [r1]"
  "attached (run demo_joined) 2 = Some bob"
  by (simp_all add: handler_defs demo_defs)

lemma demo_joined_disconnected_st:
  "rooms (st (run demo_joined_disconnected)) r1 = Some \<lparr> members = [alice, bob], pass = None \<rparr>"
  "online (st (run demo_joined_disconnected)) bob = None"
  "attached (run demo_joined_disconnected) 2 = None"
  "userRooms (st (run demo_joined_disconnected)) bob = None"
  by (simp_all add: handler_defs demo_defs)

lemma demo_joined_disconnect_effects:
  "snd (on_disconnect ((st (run demo_joined))\<lparr>sockets := (sockets (st (run demo_joined)))(2 := None)\<rparr>) bob 2 30) = []"
  by (simp add: handler_defs demo_defs)

section \<open>Joining and the membership index\<close>

text \<open>
  C1. The property: for every identity and room, the identity is in the room's member set
  exactly when the room is in the identity's entry of \<open>userRooms\<close>, and every operation
  keeps it so. Create, invite, accept, reject, leave, send and the disconnect handler keep
  it (\<open>handle_keeps_index\<close>, \<open>on_disconnect_index\<close>); \<open>room:join\<close> adds the caller to
  the members and leaves \<open>userRooms\<close> alone. In the run evaluated here alice creates
  \<open>r1\<close> and bob joins it: the join is acknowledged, bob is a member of \<open>r1\<close>, and
  \<open>r1\<close> is not in bob's index entry.
\<close>

theorem join_leaves_index_unchanged:
  "attached (run demo_room) 2 = Some bob
   \<and> st (run demo_joined) = fst (room_join (st (run demo_room)) bob 2 (JStr r1) (JStr secret) 20)
   \<and> fst (snd (room_join (st (run demo_room)) bob 2 (JStr r1) (JStr secret) 20)) =
        AckRoom r1 [alice, bob] False
   \<and> is_member (st (run demo_joined)) bob r1
   \<and> \<not> is_indexed (st (run demo_joined)) bob r1"
proof -
  have "st (run demo_joined) = fst (room_join (st (run demo_room)) bob 2 (JStr r1) (JStr secret) 20)"
    using demo_room_attached(2) by (simp add: demo_joined_def run_snoc)
  moreover have "fst (snd (room_join (st (run demo_room)) bob 2 (JStr r1) (JStr secret) 20)) =
        AckRoom r1 [alice, bob] False"
    by (simp add: demo_room_st) (simp add: handler_defs demo_defs)
  ultimately show ?thesis
    using demo_room_attached(2) demo_joined_st
    by (simp add: is_member_def is_indexed_def)
qed

text \<open>
  C8. The property: an identity that disconnects is removed from the member sets of the
  rooms it belongs to, each of these rooms gets a "left (disconnected)" notice, no index
  entry of the identity remains, and its pending invites are dropped without a message to
  the other party. The handler walks the index entry of the identity, so all of this holds
  of the rooms in that entry (\<open>on_disconnect_member\<close>, \<open>on_disconnect_indexed\<close>,
  \<open>leave_all_effects\<close>, \<open>on_disconnect_invites\<close>), and of every room the identity
  belongs to when the index is consistent (\<open>on_disconnect_leaves_every_room\<close>). A room
  entered through \<open>room:join\<close> is not in the entry. In the run evaluated here bob has
  joined \<open>r1\<close> and then disconnects: the handler emits nothing, bob's registry entry
  is deleted, and bob is still a member of \<open>r1\<close>.
\<close>

theorem disconnect_keeps_joined_member:
  "attached (run demo_joined) 2 = Some bob
   \<and> is_member (st (run demo_joined)) bob r1
   \<and> st (run demo_joined_disconnected) =
        fst (on_disconnect ((st (run demo_joined))\<lparr>sockets := (sockets (st (run demo_joined)))(2 := None)\<rparr>) bob 2 30)
   \<and> snd (on_disconnect ((st (run demo_joined))\<lparr>sockets := (sockets (st (run demo_joined)))(2 := None)\<rparr>) bob 2 30) = []
   \<and> online (st (run demo_joined_disconnected)) bob = None
   \<and> is_member (st (run demo_joined_disconnected)) bob r1"
proof -
  have "st (run demo_joined_disconnected) =
        fst (on_disconnect ((st (run demo_joined))\<lparr>sockets := (sockets (st (run demo_joined)))(2 := None)\<rparr>) bob 2 30)"
    using demo_joined_st(4) by (simp add: demo_joined_disconnected_def run_snoc disconnect_socket_def)
  then show ?thesis
    using demo_joined_st demo_joined_disconnected_st demo_joined_disconnect_effects
    by (simp add: is_member_def)
qed

section \<open>Rooms and their members\<close>

text \<open>
  C2. A stored room always has a member: in every state the server reaches, each room of
  the room store has a non-empty membership set. The two operations that remove members
  delete the room in the same step when they remove the last one: \<open>room:leave\<close> by a
  member leaves the room stored, without that member, when another member remains, and
  deletes it otherwise; the disconnect handler deletes every room of the leaving
  identity's index entry whose only member is that identity.
\<close>

theorem stored_rooms_have_members:
  "(\<forall>rid r. rooms (st (run es)) rid = Some r \<longrightarrow> members r \<noteq> [])
 \<and> (\<forall>s me sid rid r now. rid \<noteq> [] \<and> rooms s rid = Some r \<and> me \<in> set (members r) \<longrightarrow>
       rooms (fst (room_leave s me sid (JStr rid) now)) rid =
         (if set (members r) \<subseteq> {me} then None
          else Some (r\<lparr>members := set_delete me (members r)\<rparr>)))
 \<and> (\<forall>s me sid now urs rid r. userRooms s me = Some urs \<and> rid \<in> set urs \<and>
       rooms s rid = Some r \<and> set (members r) \<subseteq> {me} \<longrightarrow>
       rooms (fst (on_disconnect s me sid now)) rid = None)"
proof -
  have inv: "\<forall>rid r. rooms (st (run es)) rid = Some r \<longrightarrow> members r \<noteq> []"
    using run_nonempty [of es] by (simp add: rooms_nonempty_def)
  have lv: "\<forall>s me sid rid r now. rid \<noteq> [] \<and> rooms s rid = Some r \<and> me \<in> set (members r) \<longrightarrow>
       rooms (fst (room_leave s me sid (JStr rid) now)) rid =
         (if set (members r) \<subseteq> {me} then None
          else Some (r\<lparr>members := set_delete me (members r)\<rparr>))"
    by (simp add: room_leave_def Let_def untrack_fields set_delete_empty_iff)
  have dc: "\<forall>s me sid now urs rid r. userRooms s me = Some urs \<and> rid \<in> set urs \<and>
       rooms s rid = Some r \<and> set (members r) \<subseteq> {me} \<longrightarrow>
       rooms (fst (on_disconnect s me sid now)) rid = None"
    using on_disconnect_deletes by blast
  show ?thesis using inv lv dc by blast
qed

theorem stored_rooms_have_members_witness:
  "rooms (st (run demo_room)) r1 = Some \<lparr> members = [alice], pass = None \<rparr>
   \<and> members \<lparr> members = [alice], pass = None \<rparr> \<noteq> []
   \<and> r1 \<noteq> [] \<and> alice \<in> set (members \<lparr> members = [alice], pass = None \<rparr>)
   \<and> set (members \<lparr> members = [alice], pass = None \<rparr>) \<subseteq> {alice}
   \<and> rooms (fst (room_leave (st (run demo_room)) alice 1 (JStr r1) 20)) r1 = None
   \<and> userRooms (st (run demo_room)) alice = Some [r1] \<and> r1 \<in> set [r1]
   \<and> rooms (fst (on_disconnect (st (run demo_room)) alice 1 20)) r1 = None"
proof -
  note T = stored_rooms_have_members [of demo_room]
  have r: "rooms (st (run demo_room)) r1 = Some \<lparr> members = [alice], pass = None \<rparr>"
    by (simp add: demo_room_st)
  have u: "userRooms (st (run demo_room)) alice = Some [r1]"
    by (simp add: demo_room_st)
  have m: "alice \<in> set (members \<lparr> members = [alice], pass = None \<rparr>)"
          "set (members \<lparr> members = [alice], pass = None \<rparr>) \<subseteq> {alice}" "r1 \<in> set [r1]"
    by simp_all
  from T r have a: "members \<lparr> members = [alice], pass = None \<rparr> \<noteq> []" by blast
  from T have "\<forall>s me sid rid r now. rid \<noteq> [] \<and> rooms s rid = Some r \<and> me \<in> set (members r) \<longrightarrow>
       rooms (fst (room_leave s me sid (JStr rid) now)) rid =
         (if set (members r) \<subseteq> {me} then None
          else Some (r\<lparr>members := set_delete me (members r)\<rparr>))" by blast
  with r m normalise_r1(4)
  have b: "rooms (fst (room_leave (st (run demo_room)) alice 1 (JStr r1) 20)) r1 = None"
    by fastforce
  from T have "\<forall>s me sid now urs rid r. userRooms s me = Some urs \<and> rid \<in> set urs \<and>
       rooms s rid = Some r \<and> set (members r) \<subseteq> {me} \<longrightarrow>
       rooms (fst (on_disconnect s me sid now)) rid = None" by blast
  with r u m
  have c: "rooms (fst (on_disconnect (st (run demo_room)) alice 1 20)) r1 = None"
    by blast
  show ?thesis using r u m a b c normalise_r1(4) by blast
qed

section \<open>The identity registry\<close>

text \<open>
  C4. In every reachable state at most one socket with attached listeners carries a given
  identity, and it is the socket the registry names for that identity and it is connected.
  While it is, the middleware refuses every handshake that presents the identity (the
  error "id in use"), and a socket that passed the middleware earlier is rejected by the
  \<open>connection\<close> handler: it is sent \<open>user:error\<close> and disconnected with
  \<open>socket.disconnect(true)\<close>, it never gets listeners and is in the table no more. That
  call closes the connection of the rejected socket, so a holder of the identity that
  shares the connection is disconnected inside the call and its registry entry is deleted
  by its own \<open>disconnect\<close> handler. The disconnect handler removes the registry entry
  of its identity exactly when the entry names the disconnecting socket.
\<close>

theorem one_live_connection_per_identity:
  "(\<forall>x y. attached (run es) x = Some ident \<and> attached (run es) y = Some ident \<longrightarrow> x = y)
 \<and> (\<forall>x. attached (run es) x = Some ident \<longrightarrow>
       online (st (run es)) ident = Some x \<and> sockets (st (run es)) x = Some True)
 \<and> (\<forall>x raw. attached (run es) x = Some ident \<and> truthy raw \<and> normalise raw = ident \<longrightarrow>
       io_use (st (run es)) raw = Inl ID_IN_USE)
 \<and> (\<forall>x y now. attached (run es) x = Some ident \<and> pending (run es) y = Some ident \<longrightarrow>
       on_connection ((st (run es))\<lparr>sockets := (sockets (st (run es)))(y \<mapsto> True)\<rparr>) ident y =
         ((st (run es))\<lparr>sockets := (sockets (st (run es)))(y \<mapsto> True)\<rparr>, False,
          [EmitSocket y (user_error ID_IN_USE), SocketDisconnect y])
       \<and> attached (step (run es) (Connection y now)) y = None
       \<and> pending (step (run es) (Connection y now)) y = None
       \<and> sockets (st (step (run es) (Connection y now))) y = None
       \<and> (conn_of (run es) x = conn_of (run es) y \<longrightarrow>
            attached (step (run es) (Connection y now)) x = None \<and>
            online (st (step (run es) (Connection y now))) ident = None))
 \<and> (\<forall>s me sid now. online (fst (on_disconnect s me sid now)) =
       (if online s me = Some sid then (online s)(me := None) else online s))"
proof -
  have ok: "registry_ok (run es)" by (rule run_registry)
  have reg: "\<forall>x. attached (run es) x = Some ident \<longrightarrow>
       online (st (run es)) ident = Some x \<and> sockets (st (run es)) x = Some True"
    using registry_ok_attached [OF ok] by blast
  have uniq: "\<forall>x y. attached (run es) x = Some ident \<and> attached (run es) y = Some ident \<longrightarrow> x = y"
  proof (intro allI impI)
    fix x y
    assume a: "attached (run es) x = Some ident \<and> attached (run es) y = Some ident"
    then have "online (st (run es)) ident = Some x" and "online (st (run es)) ident = Some y"
      using reg by simp_all
    then show "x = y" by simp
  qed
  have mw: "\<forall>x raw. attached (run es) x = Some ident \<and> truthy raw \<and> normalise raw = ident \<longrightarrow>
       io_use (st (run es)) raw = Inl ID_IN_USE"
  proof (intro allI impI)
    fix x raw
    assume a: "attached (run es) x = Some ident \<and> truthy raw \<and> normalise raw = ident"
    then have "online (st (run es)) ident = Some x" "sockets (st (run es)) x = Some True"
      using reg by simp_all
    then show "io_use (st (run es)) raw = Inl ID_IN_USE"
      using a by (simp add: io_use_def normalise_def)
  qed
  have cn: "\<forall>x y now. attached (run es) x = Some ident \<and> pending (run es) y = Some ident \<longrightarrow>
       on_connection ((st (run es))\<lparr>sockets := (sockets (st (run es)))(y \<mapsto> True)\<rparr>) ident y =
         ((st (run es))\<lparr>sockets := (sockets (st (run es)))(y \<mapsto> True)\<rparr>, False,
          [EmitSocket y (user_error ID_IN_USE), SocketDisconnect y])
       \<and> attached (step (run es) (Connection y now)) y = None
       \<and> pending (step (run es) (Connection y now)) y = None
       \<and> sockets (st (step (run es) (Connection y now))) y = None
       \<and> (conn_of (run es) x = conn_of (run es) y \<longrightarrow>
            attached (step (run es) (Connection y now)) x = None \<and>
            online (st (step (run es) (Connection y now))) ident = None)"
  proof (intro allI impI)
    fix x y now
    assume a: "attached (run es) x = Some ident \<and> pending (run es) y = Some ident"
    then have ax: "attached (run es) x = Some ident" and py: "pending (run es) y = Some ident"
      by simp_all
    have o: "online (st (run es)) ident = Some x" using reg ax by simp
    have "attached (run es) y = None"
      using registry_ok_pending [OF ok, of y] py by simp
    then have ne: "x \<noteq> y" using ax by auto
    have h: "on_connection ((st (run es))\<lparr>sockets := (sockets (st (run es)))(y \<mapsto> True)\<rparr>) ident y =
         ((st (run es))\<lparr>sockets := (sockets (st (run es)))(y \<mapsto> True)\<rparr>, False,
          [EmitSocket y (user_error ID_IN_USE), SocketDisconnect y])"
      using o ne by (simp add: on_connection_def)
    note r = rejected_connection [OF ok ax py, of now]
    show "on_connection ((st (run es))\<lparr>sockets := (sockets (st (run es)))(y \<mapsto> True)\<rparr>) ident y =
         ((st (run es))\<lparr>sockets := (sockets (st (run es)))(y \<mapsto> True)\<rparr>, False,
          [EmitSocket y (user_error ID_IN_USE), SocketDisconnect y])
       \<and> attached (step (run es) (Connection y now)) y = None
       \<and> pending (step (run es) (Connection y now)) y = None
       \<and> sockets (st (step (run es) (Connection y now))) y = None
       \<and> (conn_of (run es) x = conn_of (run es) y \<longrightarrow>
            attached (step (run es) (Connection y now)) x = None \<and>
            online (st (step (run es) (Connection y now))) ident = None)"
      using h r(1) r(2) r(3) r(4) r(5) by simp
  qed
  have dc: "\<forall>s me sid now. online (fst (on_disconnect s me sid now)) =
       (if online s me = Some sid then (online s)(me := None) else online s)"
    using on_disconnect_online by blast
  show ?thesis using uniq reg mw cn dc by blast
qed

theorem one_live_connection_witness:
  "attached (run demo_race) 1 = Some alice \<and> pending (run demo_race) 2 = Some alice
   \<and> truthy (JStr alice) \<and> normalise (JStr alice) = alice
   \<and> online (st (run demo_race)) alice = Some 1
   \<and> sockets (st (run demo_race)) 1 = Some True
   \<and> io_use (st (run demo_race)) (JStr alice) = Inl ID_IN_USE
   \<and> conn_of (run demo_race) 1 = conn_of (run demo_race) 2
   \<and> attached (step (run demo_race) (Connection 2 9)) 2 = None
   \<and> pending (step (run demo_race) (Connection 2 9)) 2 = None
   \<and> sockets (st (step (run demo_race) (Connection 2 9))) 2 = None
   \<and> attached (step (run demo_race) (Connection 2 9)) 1 = None
   \<and> online (st (step (run demo_race) (Connection 2 9))) alice = None"
proof -
  note T = one_live_connection_per_identity [of demo_race alice]
  have n: "truthy (JStr alice)" "normalise (JStr alice) = alice"
    by (simp_all add: handler_defs demo_defs)
  have same: "conn_of (run demo_race) 1 = conn_of (run demo_race) 2"
    by (simp only: demo_race_st)
  from T demo_race_st(1)
  have a: "online (st (run demo_race)) alice = Some 1 \<and> sockets (st (run demo_race)) 1 = Some True"
    by blast
  from T demo_race_st(1) n
  have b: "io_use (st (run demo_race)) (JStr alice) = Inl ID_IN_USE"
    by blast
  from T have "\<forall>x y now. attached (run demo_race) x = Some alice \<and> pending (run demo_race) y = Some alice \<longrightarrow>
       attached (step (run demo_race) (Connection y now)) y = None
       \<and> pending (step (run demo_race) (Connection y now)) y = None
       \<and> sockets (st (step (run demo_race) (Connection y now))) y = None
       \<and> (conn_of (run demo_race) x = conn_of (run demo_race) y \<longrightarrow>
            attached (step (run demo_race) (Connection y now)) x = None \<and>
            online (st (step (run demo_race) (Connection y now))) alice = None)"
    by blast
  with demo_race_st(1,2) same
  have c: "attached (step (run demo_race) (Connection 2 9)) 2 = None
       \<and> pending (step (run demo_race) (Connection 2 9)) 2 = None
       \<and> sockets (st (step (run demo_race) (Connection 2 9))) 2 = None
       \<and> attached (step (run demo_race) (Connection 2 9)) 1 = None
       \<and> online (st (step (run demo_race) (Connection 2 9))) alice = None"
    by blast
  show ?thesis using demo_race_st(1,2) n same a b c by blast
qed

section \<open>Joining\<close>

text \<open>
  C5, as the claim has it, fails: a join of an unlocked room by a non-member succeeds
  although the password supplied is not empty.
\<close>

theorem join_unlocked_any_password_counterexample:
  "rooms (st (run demo_room)) (normalise (JStr r1)) = Some \<lparr> members = [alice], pass = None \<rparr>
   \<and> bob \<notin> set [alice]
   \<and> truthy (JStr secret)
   \<and> room_join (st (run demo_room)) bob 2 (JStr r1) (JStr secret) 20 =
       ((st (run demo_room))\<lparr>rooms := [r1 \<mapsto> \<lparr> members = [alice, bob], pass = None \<rparr>]\<rparr>,
        AckRoom r1 [alice, bob] False,
        [SocketJoin 2 r1, EmitRoom r1 (room_system r1 (Joined bob) 20)])"
  by (simp add: demo_room_st) (simp add: handler_defs demo_defs)

text \<open>
  C5, amended. A join request that names an existing room of which the caller is not a
  member succeeds whatever password is supplied when the room is unlocked; when the room
  is locked it succeeds if \<open>String(password || "")\<close> equals the stored password
  exactly, and fails with \<open>WRONG_PASSWORD\<close> otherwise.
\<close>

theorem join_password_check:
  assumes "truthy roomId"
    and "rooms s (normalise roomId) = Some r"
    and "me \<notin> set (members r)"
  shows "(\<not> locked r \<longrightarrow>
            fst (snd (room_join s me sid roomId password now)) =
              AckRoom (normalise roomId) (members r @ [me]) False)
       \<and> (locked r \<and> Some (String (or_empty password)) = pass r \<longrightarrow>
            fst (snd (room_join s me sid roomId password now)) =
              AckRoom (normalise roomId) (members r @ [me]) True)
       \<and> (locked r \<and> Some (String (or_empty password)) \<noteq> pass r \<longrightarrow>
            room_join s me sid roomId password now = (s, AckErr WRONG_PASSWORD, []))"
  using assms by (simp add: room_join_def Let_def set_add_def locked_def)

theorem join_password_check_witness:
  "truthy (JStr r1)
   \<and> rooms (st (run demo_room)) (normalise (JStr r1)) = Some \<lparr> members = [alice], pass = None \<rparr>
   \<and> rooms (st (run demo_locked)) (normalise (JStr r1)) = Some \<lparr> members = [alice], pass = Some secret \<rparr>
   \<and> bob \<notin> set [alice]
   \<and> \<not> locked \<lparr> members = [alice], pass = None \<rparr>
   \<and> locked \<lparr> members = [alice], pass = Some secret \<rparr>
   \<and> fst (snd (room_join (st (run demo_room)) bob 2 (JStr r1) (JStr secret) 20)) =
       AckRoom r1 [alice, bob] False
   \<and> fst (snd (room_join (st (run demo_locked)) bob 2 (JStr r1) (JStr secret) 20)) =
       AckRoom r1 [alice, bob] True
   \<and> Some (String (or_empty JUndefined)) \<noteq> Some secret
   \<and> room_join (st (run demo_locked)) bob 2 (JStr r1) JUndefined 20 =
       (st (run demo_locked), AckErr WRONG_PASSWORD, [])"
proof -
  let ?open = "\<lparr> members = [alice], pass = None \<rparr>"
  let ?shut = "\<lparr> members = [alice], pass = Some secret \<rparr>"
  have t: "truthy (JStr r1)" by (rule normalise_r1)
  have r: "rooms (st (run demo_room)) (normalise (JStr r1)) = Some ?open"
    by (simp add: normalise_r1 demo_room_st)
  have q: "rooms (st (run demo_locked)) (normalise (JStr r1)) = Some ?shut"
    by (simp add: normalise_r1 demo_locked_st)
  have m: "bob \<notin> set (members ?open)" "bob \<notin> set (members ?shut)"
    using names_differ by simp_all
  have u: "\<not> locked ?open" "locked ?shut"
    using names_differ by (simp_all add: locked_def)
  have p: "Some (String (or_empty (JStr secret))) = pass ?shut"
          "Some (String (or_empty JUndefined)) \<noteq> pass ?shut"
    using names_differ by (simp_all add: or_empty_def)
  have a: "fst (snd (room_join (st (run demo_room)) bob 2 (JStr r1) (JStr secret) 20)) =
       AckRoom r1 [alice, bob] False"
    using join_password_check [OF t r m(1), of 2 "JStr secret" 20] u(1)
    by (simp add: normalise_r1)
  have b: "fst (snd (room_join (st (run demo_locked)) bob 2 (JStr r1) (JStr secret) 20)) =
       AckRoom r1 [alice, bob] True"
    using join_password_check [OF t q m(2), of 2 "JStr secret" 20] u(2) p(1)
    by (simp add: normalise_r1)
  have c: "room_join (st (run demo_locked)) bob 2 (JStr r1) JUndefined 20 =
       (st (run demo_locked), AckErr WRONG_PASSWORD, [])"
    using join_password_check [OF t q m(2), of 2 JUndefined 20] u(2) p(2)
    by simp
  show ?thesis using t r q m u p a b c by simp
qed

text \<open>
  C6. A join request that names a room (its \<open>roomId\<close> is not rejected as missing) is
  checked for the room's existence first, then for the caller's membership, then for the
  password: when the room does not exist the answer is \<open>ROOM_NOT_FOUND\<close>; when it exists
  and the caller is already a member the answer is \<open>ALREADY_IN_ROOM\<close> whatever password
  is supplied, the right one included, and nothing changes; \<open>WRONG_PASSWORD\<close> is
  answered only to a caller who is not a member of an existing room.
\<close>

theorem join_member_already_in_room:
  assumes "truthy roomId"
  shows "(rooms s (normalise roomId) = None \<longrightarrow>
            room_join s me sid roomId password now = (s, AckErr ROOM_NOT_FOUND, []))
       \<and> (\<forall>r. rooms s (normalise roomId) = Some r \<and> me \<in> set (members r) \<longrightarrow>
            room_join s me sid roomId password now = (s, AckErr ALREADY_IN_ROOM, []))
       \<and> (fst (snd (room_join s me sid roomId password now)) = AckErr WRONG_PASSWORD \<longrightarrow>
            (\<exists>r. rooms s (normalise roomId) = Some r \<and> me \<notin> set (members r)))"
  using assms by (auto simp: room_join_def Let_def split: option.splits if_splits)

theorem join_member_witness:
  "truthy (JStr r1) \<and> rooms (st (run demo_room)) (normalise (JStr r1)) =
      Some \<lparr> members = [alice], pass = None \<rparr> \<and> alice \<in> set [alice] \<and>
   room_join (st (run demo_room)) alice 1 (JStr r1) (JStr secret) 20 =
     (st (run demo_room), AckErr ALREADY_IN_ROOM, [])"
proof -
  have t: "truthy (JStr r1)" by (simp add: demo_defs)
  have n: "normalise (JStr r1) = r1" by (simp add: handler_defs demo_defs)
  have r: "rooms (st (run demo_room)) (normalise (JStr r1)) = Some \<lparr> members = [alice], pass = None \<rparr>"
    by (simp add: n demo_room_st)
  show ?thesis
    using t r join_member_already_in_room [OF t, of "st (run demo_room)" alice 1 "JStr secret" 20]
    by simp
qed

section \<open>Invitations\<close>

text \<open>
  C7. When the target of a pending invite accepts it: if the invited room is gone, or the
  proposer or the target has no registry entry, the invite is deleted, an error is
  acknowledged and nothing else changes; otherwise the room's members afterwards are the
  former members with the proposer and the target, a proposer who was a member already is
  not added twice, the acknowledgment lists these members, and the invite is deleted.
\<close>

theorem accept_invite:
  assumes "map_get (invites s) inviteId = Some invt" and "inv_toId invt = me"
  shows "(rooms s (inv_roomId invt) = None \<longrightarrow>
            room_accept s me inviteId now =
              (s\<lparr>invites := map_delete (invites s) inviteId\<rparr>, AckErr ROOM_NOT_FOUND, []))
       \<and> (rooms s (inv_roomId invt) \<noteq> None \<and>
          (online s (inv_fromId invt) = None \<or> online s (inv_toId invt) = None) \<longrightarrow>
            room_accept s me inviteId now =
              (s\<lparr>invites := map_delete (invites s) inviteId\<rparr>, AckErr PARTY_OFFLINE, []))
       \<and> (\<forall>r. rooms s (inv_roomId invt) = Some r \<and>
              online s (inv_fromId invt) \<noteq> None \<and> online s (inv_toId invt) \<noteq> None \<longrightarrow>
            (\<exists>r'. rooms (fst (room_accept s me inviteId now)) (inv_roomId invt) = Some r' \<and>
                  set (members r') = insert (inv_fromId invt) (insert me (set (members r))) \<and>
                  (inv_fromId invt \<in> set (members r) \<longrightarrow>
                     members r' = set_add me (members r)) \<and>
                  pass r' = pass r \<and>
                  fst (snd (room_accept s me inviteId now)) =
                    AckRoom (inv_roomId invt) (members r') (locked r')))
       \<and> map_get (invites (fst (room_accept s me inviteId now))) inviteId = None"
proof -
  obtain k where k: "inviteId = JStr k"
    using assms(1) by (cases inviteId) (simp_all add: map_get_def)
  have c1: "rooms s (inv_roomId invt) = None \<longrightarrow>
            room_accept s me inviteId now =
              (s\<lparr>invites := map_delete (invites s) inviteId\<rparr>, AckErr ROOM_NOT_FOUND, [])"
    using assms by (simp add: room_accept_def)
  have c2: "rooms s (inv_roomId invt) \<noteq> None \<and>
          (online s (inv_fromId invt) = None \<or> online s (inv_toId invt) = None) \<longrightarrow>
            room_accept s me inviteId now =
              (s\<lparr>invites := map_delete (invites s) inviteId\<rparr>, AckErr PARTY_OFFLINE, [])"
    using assms by (auto simp: room_accept_def split: option.splits)
  have c3: "\<forall>r. rooms s (inv_roomId invt) = Some r \<and>
              online s (inv_fromId invt) \<noteq> None \<and> online s (inv_toId invt) \<noteq> None \<longrightarrow>
            (\<exists>r'. rooms (fst (room_accept s me inviteId now)) (inv_roomId invt) = Some r' \<and>
                  set (members r') = insert (inv_fromId invt) (insert me (set (members r))) \<and>
                  (inv_fromId invt \<in> set (members r) \<longrightarrow>
                     members r' = set_add me (members r)) \<and>
                  pass r' = pass r \<and>
                  fst (snd (room_accept s me inviteId now)) =
                    AckRoom (inv_roomId invt) (members r') (locked r'))"
    using assms
    by (auto simp: room_accept_def Let_def track_fields set_add_def locked_def split: option.splits)
  have c4: "map_get (invites (fst (room_accept s me inviteId now))) inviteId = None"
    using assms k
    by (auto simp: room_accept_def Let_def track_fields map_get_def map_delete_def split: option.splits)
  show ?thesis using c1 c2 c3 c4 by blast
qed

theorem accept_invite_witness:
  "map_get (invites (st (run demo_invited))) (JStr token) =
     Some \<lparr> inv_roomId = r1, inv_fromId = alice, inv_toId = bob, inv_createdAt = 20 \<rparr>
   \<and> rooms (st (run demo_invited)) r1 = Some \<lparr> members = [alice], pass = None \<rparr>
   \<and> online (st (run demo_invited)) alice \<noteq> None \<and> online (st (run demo_invited)) bob \<noteq> None
   \<and> rooms (fst (room_accept (st (run demo_invited)) bob (JStr token) 30)) r1 =
       Some \<lparr> members = [alice, bob], pass = None \<rparr>
   \<and> map_get (invites (fst (room_accept (st (run demo_invited)) bob (JStr token) 30))) (JStr token) = None
   \<and> map_get (invites (st (run demo_vanished))) (JStr token) =
     Some \<lparr> inv_roomId = r1, inv_fromId = alice, inv_toId = bob, inv_createdAt = 20 \<rparr>
   \<and> rooms (st (run demo_vanished)) r1 = None
   \<and> room_accept (st (run demo_vanished)) bob (JStr token) 30 =
       ((st (run demo_vanished))\<lparr>invites := map_delete (invites (st (run demo_vanished))) (JStr token)\<rparr>,
        AckErr ROOM_NOT_FOUND, [])"
proof -
  let ?i = "\<lparr> inv_roomId = r1, inv_fromId = alice, inv_toId = bob, inv_createdAt = 20 \<rparr>"
  have g: "map_get (invites (st (run demo_invited))) (JStr token) = Some ?i"
    by (simp add: demo_invited_st map_get_def)
  have h: "map_get (invites (st (run demo_vanished))) (JStr token) = Some ?i"
    by (simp add: demo_vanished_st map_get_def)
  have to: "inv_toId ?i = bob" by simp
  have r: "rooms (st (run demo_invited)) r1 = Some \<lparr> members = [alice], pass = None \<rparr>"
    by (simp add: demo_invited_st)
  have o: "online (st (run demo_invited)) alice \<noteq> None" "online (st (run demo_invited)) bob \<noteq> None"
    using names_differ by (simp_all add: demo_invited_st)
  note S = accept_invite [OF g to, of 30]
  note V = accept_invite [OF h to, of 30]
  from S r o
  have "\<exists>r'. rooms (fst (room_accept (st (run demo_invited)) bob (JStr token) 30)) r1 = Some r'
          \<and> members r' = set_add bob [alice] \<and> pass r' = None"
    by auto
  then obtain r' where
    r': "rooms (fst (room_accept (st (run demo_invited)) bob (JStr token) 30)) r1 = Some r'"
        "members r' = [alice, bob]" "pass r' = None"
    using names_differ by (auto simp: set_add_def)
  have "r' = \<lparr> members = [alice, bob], pass = None \<rparr>"
    using r'(2,3) by (cases r') simp
  then have a: "rooms (fst (room_accept (st (run demo_invited)) bob (JStr token) 30)) r1 =
       Some \<lparr> members = [alice, bob], pass = None \<rparr>"
    using r'(1) by simp
  from S have b: "map_get (invites (fst (room_accept (st (run demo_invited)) bob (JStr token) 30))) (JStr token) = None"
    by simp
  from V demo_vanished_st(1)
  have c: "room_accept (st (run demo_vanished)) bob (JStr token) 30 =
       ((st (run demo_vanished))\<lparr>invites := map_delete (invites (st (run demo_vanished))) (JStr token)\<rparr>,
        AckErr ROOM_NOT_FOUND, [])"
    by simp
  show ?thesis using g h r o a b c demo_vanished_st(1) by blast
qed

text \<open>
  C3, as the claim has it, fails for a second reject: after bob's accept has consumed the
  token, a reject that presents the same token is acknowledged with \<open>ok\<close>, not with
  \<open>INVITE_NOT_FOUND\<close>.
\<close>

theorem second_reject_ok_counterexample:
  "map_get (invites (st (run demo_invited))) (JStr token) =
     Some \<lparr> inv_roomId = r1, inv_fromId = alice, inv_toId = bob, inv_createdAt = 20 \<rparr>
   \<and> st (run demo_accepted) = fst (room_accept (st (run demo_invited)) bob (JStr token) 30)
   \<and> map_get (invites (st (run demo_accepted))) (JStr token) = None
   \<and> room_reject (st (run demo_accepted)) bob (JStr token) 40 = (st (run demo_accepted), AckOk, [])
   \<and> fst (snd (room_reject (st (run demo_accepted)) bob (JStr token) 40)) \<noteq> AckErr INVITE_NOT_FOUND"
proof -
  have a: "attached (run demo_invited) 2 = Some bob"
    by (simp add: handler_defs demo_defs)
  have "st (run demo_accepted) = fst (room_accept (st (run demo_invited)) bob (JStr token) 30)"
    using a by (simp add: demo_accepted_def run_snoc)
  moreover have "map_get (invites (st (run demo_accepted))) (JStr token) = None"
    by (simp add: map_get_def demo_accepted_rooms)
  moreover from this
  have "room_reject (st (run demo_accepted)) bob (JStr token) 40 = (st (run demo_accepted), AckOk, [])"
    by (simp add: room_reject_def)
  ultimately show ?thesis
    by (simp add: demo_invited_st map_get_def)
qed

text \<open>
  C3, amended. An invite token is usable at most once: an accept or a reject by the
  invite's target consumes the token; after that, every accept that presents the token
  fails with \<open>INVITE_NOT_FOUND\<close> and changes nothing, and every reject that presents
  it is acknowledged with \<open>ok\<close> and changes nothing.
\<close>

theorem consumed_invite_not_found:
  assumes "map_get (invites s) inviteId = Some invt" and "inv_toId invt = me"
    and "s' = fst (room_accept s me inviteId now) \<or> s' = fst (room_reject s me inviteId now)"
  shows "map_get (invites s') inviteId = None
       \<and> room_accept s' u inviteId t = (s', AckErr INVITE_NOT_FOUND, [])
       \<and> room_reject s' u inviteId t = (s', AckOk, [])"
proof -
  obtain k where k: "inviteId = JStr k"
    using assms(1) by (cases inviteId) (simp_all add: map_get_def)
  have "map_get (invites (fst (room_accept s me inviteId now))) inviteId = None"
    using assms(1,2) k
    by (auto simp: room_accept_def Let_def track_fields map_get_def map_delete_def split: option.splits)
  moreover have "map_get (invites (fst (room_reject s me inviteId now))) inviteId = None"
    using assms(1,2) k by (simp add: room_reject_def map_get_def map_delete_def)
  ultimately have gone: "map_get (invites s') inviteId = None"
    using assms(3) by auto
  then show ?thesis by (simp add: room_accept_def room_reject_def)
qed

theorem consumed_invite_witness:
  "map_get (invites (st (run demo_invited))) (JStr token) =
     Some \<lparr> inv_roomId = r1, inv_fromId = alice, inv_toId = bob, inv_createdAt = 20 \<rparr>
   \<and> st (run demo_accepted) = fst (room_accept (st (run demo_invited)) bob (JStr token) 30)
   \<and> map_get (invites (st (run demo_accepted))) (JStr token) = None
   \<and> room_accept (st (run demo_accepted)) bob (JStr token) 40 =
       (st (run demo_accepted), AckErr INVITE_NOT_FOUND, [])
   \<and> room_accept (fst (room_reject (st (run demo_invited)) bob (JStr token) 30)) bob (JStr token) 40 =
       (fst (room_reject (st (run demo_invited)) bob (JStr token) 30), AckErr INVITE_NOT_FOUND, [])"
proof -
  let ?i = "\<lparr> inv_roomId = r1, inv_fromId = alice, inv_toId = bob, inv_createdAt = 20 \<rparr>"
  have g: "map_get (invites (st (run demo_invited))) (JStr token) = Some ?i"
    by (simp add: demo_invited_st map_get_def)
  have to: "inv_toId ?i = bob" by simp
  have a: "attached (run demo_invited) 2 = Some bob"
    by (simp add: handler_defs demo_defs)
  have e: "st (run demo_accepted) = fst (room_accept (st (run demo_invited)) bob (JStr token) 30)"
    using a by (simp add: demo_accepted_def run_snoc)
  have x: "map_get (invites (st (run demo_accepted))) (JStr token) = None
       \<and> room_accept (st (run demo_accepted)) bob (JStr token) 40 =
           (st (run demo_accepted), AckErr INVITE_NOT_FOUND, [])"
    using consumed_invite_not_found [OF g to, of "st (run demo_accepted)" 30 bob 40] e by simp
  have y: "room_accept (fst (room_reject (st (run demo_invited)) bob (JStr token) 30)) bob (JStr token) 40 =
       (fst (room_reject (st (run demo_invited)) bob (JStr token) 30), AckErr INVITE_NOT_FOUND, [])"
    using consumed_invite_not_found
      [OF g to, of "fst (room_reject (st (run demo_invited)) bob (JStr token) 30)" 30 bob 40]
    by simp
  show ?thesis using g e x y by simp
qed

section \<open>Sending\<close>

text \<open>
  C9. A send request whose \<open>roomId\<close> and \<open>text\<close> are both non-empty (truthy), sent by a
  member of the room, is acknowledged with the message id, and the one message broadcast
  to the room carries the text cut to its first 4000 code units: at most 4000 units,
  exactly 4000 when the text is longer, the whole text otherwise. A sender who is not a
  member of the room, or names no stored room, gets the not-in-room error.
\<close>

theorem send_truncates_text:
  assumes "truthy roomId" and "truthy text"
  shows "(\<forall>r. map_get (rooms s) roomId = Some r \<and> me \<in> set (members r) \<longrightarrow>
            room_send s me roomId text mid now =
              (s, AckSent mid,
               [EmitRoom (String roomId) (room_message
                  \<lparr> msg_id = mid, msg_roomId = String roomId, msg_from = me,
                    msg_text = take 4000 (String text), msg_at = now \<rparr>)])
            \<and> length (take 4000 (String text)) \<le> 4000
            \<and> (4000 < length (String text) \<longrightarrow> length (take 4000 (String text)) = 4000)
            \<and> (length (String text) \<le> 4000 \<longrightarrow> take 4000 (String text) = String text))
       \<and> (map_get (rooms s) roomId = None \<longrightarrow>
            room_send s me roomId text mid now = (s, AckErr NOT_IN_ROOM, []))
       \<and> (\<forall>r. map_get (rooms s) roomId = Some r \<and> me \<notin> set (members r) \<longrightarrow>
            room_send s me roomId text mid now = (s, AckErr NOT_IN_ROOM, []))"
  using assms by (simp add: room_send_def Let_def slice0_def)

theorem send_truncates_text_witness:
  "truthy (JStr r1) \<and> truthy (JStr (replicate 4001 0x61))
   \<and> map_get (rooms (st (run demo_room))) (JStr r1) = Some \<lparr> members = [alice], pass = None \<rparr>
   \<and> alice \<in> set [alice] \<and> bob \<notin> set [alice]
   \<and> 4000 < length (String (JStr (replicate 4001 0x61)))
   \<and> room_send (st (run demo_room)) alice (JStr r1) (JStr (replicate 4001 0x61)) token 20 =
       (st (run demo_room), AckSent token,
        [EmitRoom r1 (room_message
           \<lparr> msg_id = token, msg_roomId = r1, msg_from = alice,
             msg_text = replicate 4000 0x61, msg_at = 20 \<rparr>)])
   \<and> length (replicate 4000 (0x61 :: 16 word)) = 4000
   \<and> room_send (st (run demo_room)) bob (JStr r1) (JStr (replicate 4001 0x61)) token 20 =
       (st (run demo_room), AckErr NOT_IN_ROOM, [])"
proof -
  let ?long = "JStr (replicate 4001 0x61)"
  have t: "truthy (JStr r1)" "truthy ?long"
    using normalise_r1 by simp_all
  have r: "map_get (rooms (st (run demo_room))) (JStr r1) = Some \<lparr> members = [alice], pass = None \<rparr>"
    by (simp add: demo_room_st map_get_def)
  have m: "alice \<in> set (members \<lparr> members = [alice], pass = None \<rparr>)"
          "bob \<notin> set (members \<lparr> members = [alice], pass = None \<rparr>)"
    using names_differ by simp_all
  have l: "4000 < length (String ?long)" by simp
  have k: "take 4000 (String ?long) = replicate 4000 0x61" by simp
  note A = send_truncates_text [OF t, of "st (run demo_room)" alice token 20]
  note B = send_truncates_text [OF t, of "st (run demo_room)" bob token 20]
  from A r m(1) have a: "room_send (st (run demo_room)) alice (JStr r1) ?long token 20 =
       (st (run demo_room), AckSent token,
        [EmitRoom r1 (room_message
           \<lparr> msg_id = token, msg_roomId = r1, msg_from = alice,
             msg_text = replicate 4000 0x61, msg_at = 20 \<rparr>)])"
    by (simp only: k) simp
  from B r m(2) have b: "room_send (st (run demo_room)) bob (JStr r1) ?long token 20 =
       (st (run demo_room), AckErr NOT_IN_ROOM, [])"
    by blast
  show ?thesis using t r m l a b by simp
qed

section \<open>Rooms without a password\<close>

text \<open>
  C10. Creating a room with a falsy password (the empty string, a missing field,
  \<open>null\<close>, \<open>false\<close>) stores it without a password: the acknowledgment of the create
  reports \<open>locked: false\<close>, \<open>room:exists\<close> reports the room as existing and not locked,
  and a join of the room by anyone who is not a member succeeds for every password
  supplied. Later on the room stays without a password as long as it is stored, whatever
  events follow, unless a create request with a truthy password stores a new room under
  the same key after this one was deleted; and in any state a join of a room stored
  without a password succeeds for a non-member whatever password is supplied.
\<close>

theorem create_falsy_password_unlocked:
  assumes "truthy roomId" and "\<not> truthy password" and "rooms s (normalise roomId) = None"
  shows "fst (snd (room_create s me sid roomId password now)) = AckRoom (normalise roomId) [me] False
       \<and> rooms (fst (room_create s me sid roomId password now)) (normalise roomId) =
           Some \<lparr> members = [me], pass = None \<rparr>
       \<and> (\<forall>q. truthy q \<and> trim (String q) = normalise roomId \<longrightarrow>
              room_exists (fst (room_create s me sid roomId password now)) q = AckExists True False)
       \<and> (\<forall>u x q pw t. u \<noteq> me \<and> truthy q \<and> normalise q = normalise roomId \<longrightarrow>
              fst (snd (room_join (fst (room_create s me sid roomId password now)) u x q pw t)) =
                AckRoom (normalise roomId) [me, u] False)
       \<and> (\<forall>w es r. st w = fst (room_create s me sid roomId password now) \<and>
              (\<forall>e \<in> set es. \<not> locking_create (normalise roomId) e) \<and>
              rooms (st (foldl step w es)) (normalise roomId) = Some r \<longrightarrow> pass r = None)
       \<and> (\<forall>s' r u x q pw t. rooms s' (normalise q) = Some r \<and> pass r = None \<and> truthy q \<and>
              u \<notin> set (members r) \<longrightarrow>
              fst (snd (room_join s' u x q pw t)) = AckRoom (normalise q) (members r @ [u]) False)"
proof -
  let ?s' = "fst (room_create s me sid roomId password now)"
  have ack: "fst (snd (room_create s me sid roomId password now)) = AckRoom (normalise roomId) [me] False"
    using assms by (simp add: room_create_def Let_def locked_def)
  have stored: "rooms ?s' (normalise roomId) = Some \<lparr> members = [me], pass = None \<rparr>"
    using assms by (simp add: room_create_def Let_def track_fields)
  have ex: "\<forall>q. truthy q \<and> trim (String q) = normalise roomId \<longrightarrow> room_exists ?s' q = AckExists True False"
    using stored by (simp add: room_exists_def locked_def)
  have jn: "\<forall>s' r u x q pw t. rooms s' (normalise q) = Some r \<and> pass r = None \<and> truthy q \<and>
              u \<notin> set (members r) \<longrightarrow>
              fst (snd (room_join s' u x q pw t)) = AckRoom (normalise q) (members r @ [u]) False"
    by (simp add: room_join_def Let_def locked_def set_add_def)
  have jn': "\<forall>u x q pw t. u \<noteq> me \<and> truthy q \<and> normalise q = normalise roomId \<longrightarrow>
              fst (snd (room_join ?s' u x q pw t)) = AckRoom (normalise roomId) [me, u] False"
    using stored by (simp add: room_join_def Let_def locked_def set_add_def)
  have later: "\<forall>w es r. st w = ?s' \<and> (\<forall>e \<in> set es. \<not> locking_create (normalise roomId) e) \<and>
              rooms (st (foldl step w es)) (normalise roomId) = Some r \<longrightarrow> pass r = None"
  proof (intro allI impI)
    fix w es r
    assume a: "st w = ?s' \<and> (\<forall>e \<in> set es. \<not> locking_create (normalise roomId) e) \<and>
              rooms (st (foldl step w es)) (normalise roomId) = Some r"
    then have "unlocked_or_absent (st w) (normalise roomId)"
      using stored by (simp add: unlocked_or_absent_def)
    then have "unlocked_or_absent (st (foldl step w es)) (normalise roomId)"
      using a by (intro steps_unlocked) simp_all
    then show "pass r = None" using a by (simp add: unlocked_or_absent_def)
  qed
  show ?thesis using ack stored ex jn jn' later by blast
qed

theorem create_falsy_password_witness:
  "truthy (JStr r1) \<and> \<not> truthy (JStr []) \<and> \<not> truthy JUndefined
   \<and> rooms (st (run demo_connected)) (normalise (JStr r1)) = None
   \<and> fst (snd (room_create (st (run demo_connected)) alice 1 (JStr r1) (JStr []) 10)) =
       AckRoom r1 [alice] False
   \<and> fst (snd (room_create (st (run demo_connected)) alice 1 (JStr r1) JUndefined 10)) =
       AckRoom r1 [alice] False
   \<and> st (run demo_room) = fst (room_create (st (run demo_connected)) alice 1 (JStr r1) JUndefined 10)
   \<and> trim (String (JStr r1)) = normalise (JStr r1)
   \<and> room_exists (st (run demo_room)) (JStr r1) = AckExists True False
   \<and> bob \<noteq> alice
   \<and> fst (snd (room_join (st (run demo_room)) bob 2 (JStr r1) (JStr secret) 20)) =
       AckRoom r1 [alice, bob] False
   \<and> \<not> locking_create (normalise (JStr r1)) (Request 2 (Join (JStr r1) (JStr secret)) 20)
   \<and> rooms (st (foldl step (run demo_room) [Request 2 (Join (JStr r1) (JStr secret)) 20])) r1 =
       Some \<lparr> members = [alice, bob], pass = None \<rparr>
   \<and> pass \<lparr> members = [alice, bob], pass = None \<rparr> = None"
proof -
  let ?s = "st (run demo_connected)"
  let ?es = "[Request 2 (Join (JStr r1) (JStr secret)) 20]"
  have t: "truthy (JStr r1)" by (rule normalise_r1)
  have f: "\<not> truthy (JStr [])" "\<not> truthy JUndefined" by simp_all
  have e: "rooms ?s (normalise (JStr r1)) = None"
    by (simp only: normalise_r1 demo_connected_st)
  have n: "trim (String (JStr r1)) = normalise (JStr r1)" by (simp only: normalise_r1)
  have c: "st (run demo_room) = fst (room_create ?s alice 1 (JStr r1) JUndefined 10)"
    using demo_connected_st(2) by (simp add: demo_room_def run_snoc)
  have l: "\<forall>e \<in> set ?es. \<not> locking_create (normalise (JStr r1)) e" by simp
  have j: "rooms (st (foldl step (run demo_room) ?es)) r1 = Some \<lparr> members = [alice, bob], pass = None \<rparr>"
    using demo_joined_st(1) by (simp add: demo_joined_def run_def)
  note A = create_falsy_password_unlocked [OF t f(1) e, of alice 1 10]
  note B = create_falsy_password_unlocked [OF t f(2) e, of alice 1 10]
  from A have a: "fst (snd (room_create ?s alice 1 (JStr r1) (JStr []) 10)) = AckRoom r1 [alice] False"
    by (simp add: normalise_r1)
  from B have b: "fst (snd (room_create ?s alice 1 (JStr r1) JUndefined 10)) = AckRoom r1 [alice] False"
    by (simp add: normalise_r1)
  from B t n have x: "room_exists (fst (room_create ?s alice 1 (JStr r1) JUndefined 10)) (JStr r1) =
       AckExists True False"
    by blast
  from B have "\<forall>u x q pw t. u \<noteq> alice \<and> truthy q \<and> normalise q = normalise (JStr r1) \<longrightarrow>
              fst (snd (room_join (fst (room_create ?s alice 1 (JStr r1) JUndefined 10)) u x q pw t)) =
                AckRoom (normalise (JStr r1)) [alice, u] False"
    by blast
  with t names_differ(2)
  have d: "fst (snd (room_join (fst (room_create ?s alice 1 (JStr r1) JUndefined 10)) bob 2
                  (JStr r1) (JStr secret) 20)) = AckRoom (normalise (JStr r1)) [alice, bob] False"
    by blast
  from B have "\<forall>w es r. st w = fst (room_create ?s alice 1 (JStr r1) JUndefined 10) \<and>
              (\<forall>e \<in> set es. \<not> locking_create (normalise (JStr r1)) e) \<and>
              rooms (st (foldl step w es)) (normalise (JStr r1)) = Some r \<longrightarrow> pass r = None"
    by blast
  with c l j have p: "pass \<lparr> members = [alice, bob], pass = None \<rparr> = None"
    by simp
  show ?thesis using t f e n a b c x d j p names_differ(2) by (simp add: normalise_r1)
qed

end
